theory Spec2Isabelle
  imports Main "HOL-Library.Word" "HOL-Library.Sublist"
begin

unbundle bit_operations_syntax

section \<open>Data model of pp/op_bfd.cpp\<close>

text \<open>
  The machine types of the source. \<open>u32\<close> is the profiler's 32-bit unsigned type.
  \<open>bfd_vma\<close>, \<open>file_ptr\<close>, \<open>bfd_size_type\<close> and \<open>size_t\<close> come from the BFD library and
  the C library; they are taken at 64 bits (\<open>file_ptr\<close> is signed: a 64-bit word holds
  its two's complement, and every use in the source converts it to an unsigned type).
  A conversion to a narrower unsigned type is \<open>ucast\<close>.
\<close>

type_synonym u32 = "32 word"
type_synonym uint = "32 word"
type_synonym flagword = "32 word"
type_synonym bfd_vma = "64 word"
type_synonym file_ptr = "64 word"
type_synonym bfd_size_type = "64 word"
type_synonym size_t = "64 word"

text \<open>Flag bits of BFD's \<open>bfd.h\<close> (library constants, not part of the repository).\<close>

definition SEC_ALLOC :: flagword where "SEC_ALLOC = 0x001"
definition SEC_CODE :: flagword where "SEC_CODE = 0x010"
definition HAS_SYMS :: flagword where "HAS_SYMS = 0x10"

text \<open>
  A section (\<open>asection\<close>) and a raw symbol (\<open>asymbol\<close>) as the source reads them. A C string
  is the list of its characters before the terminating NUL; a \<open>char const *\<close> that may be
  null is a \<open>string option\<close>. The symbol's \<open>section\<close> pointer is the section record
  itself: sections are never written.
\<close>

record asection =
  sec_name :: string
  sec_flags :: flagword
  sec_vma :: bfd_vma
  sec_filepos :: file_ptr
  sec_size :: bfd_size_type

record asymbol =
  sym_name :: "string option"
  sym_value :: bfd_vma
  sym_section :: asection

text \<open>\<open>struct op_bfd_symbol { asymbol * symbol; bfd_vma vma; size_t size; }\<close>\<close>

record op_bfd_symbol =
  symbol :: asymbol
  vma :: bfd_vma
  symb_size :: size_t

text \<open>
  What the BFD handle \<open>ibfd\<close> answers: whether the format matched, the file flags, the
  bound and the content of the canonical symbol table, and the sections.
\<close>

record bfd =
  format_matches :: bool
  file_flags :: flagword
  symtab_upper_bound :: size_t
  symtab :: "asymbol list"
  sections :: "asection list"

text \<open>
  The object \<open>op_bfd\<close>. \<open>nr_samples\<close> is printed with \<open>%x\<close> and added to the \<open>u32\<close> section
  offset: an \<open>unsigned int\<close>.
\<close>

record op_bfd =
  ibfd :: bfd
  syms :: "op_bfd_symbol list"
  nr_samples :: uint
  sect_offset :: u32

text \<open>
  Every \<open>exit(EXIT_FAILURE)\<close> of the source, by the message printed before it, and the
  dereference of a null pointer.
\<close>

datatype error =
  Exit_empty_filename
  | Exit_openr_failed
  | Exit_format_failure
  | Exit_start_out_of_range
  | Exit_end_out_of_range
  | Exit_start_after_end
  | Null_dereference

text \<open>
  Compound assignment on a \<open>u32\<close> with a 64-bit operand: the operation is done at 64
  bits and the result converted back to \<open>u32\<close>.
\<close>

definition u32_add_assign :: "u32 \<Rightarrow> 64 word \<Rightarrow> u32" where
  "u32_add_assign num x = ucast ((ucast num :: 64 word) + x)"

definition u32_sub_assign :: "u32 \<Rightarrow> 64 word \<Rightarrow> u32" where
  "u32_sub_assign num x = ucast ((ucast num :: 64 word) - x)"

section \<open>The candidate filter\<close>

definition boring_symbols :: "string list" where
  "boring_symbols = [''gcc2_compiled.'', ''_init'']"

text \<open>The loop over \<open>boring_symbols\<close>: true when some entry compares equal to the name.\<close>

fun boring_loop :: "string list \<Rightarrow> string \<Rightarrow> bool" where
  "boring_loop [] nm = False"
| "boring_loop (b # bs) nm = (if b = nm then True else boring_loop bs nm)"

text \<open>\<open>sym->name[1] == 'L'\<close>: the character at index 1 of a one-character name is the NUL.\<close>

fun local_label :: "string \<Rightarrow> bool" where
  "local_label (c0 # c1 # cs) = (c0 = CHR ''.'' \<and> c1 = CHR ''L'')"
| "local_label cs = False"

definition interesting_symbol :: "asymbol \<Rightarrow> bool" where
  "interesting_symbol smb =
     (if sec_flags (sym_section smb) AND SEC_CODE = 0 then False
      else case sym_name smb of
        None \<Rightarrow> False
      | Some nm \<Rightarrow>
          if nm = [] then False
          else if local_label nm then False
          else if boring_loop boring_symbols nm then False
          else True)"

section \<open>Building the symbol table\<close>

text \<open>The comparator of the sort.\<close>

definition symcomp :: "op_bfd_symbol \<Rightarrow> op_bfd_symbol \<Rightarrow> bool" where
  "symcomp a b = (vma a < vma b)"

text \<open>The first loop of \<open>get_symbols\<close>: push the interesting symbols, size 0.\<close>

definition new_symb :: "asymbol \<Rightarrow> op_bfd_symbol" where
  "new_symb s = \<lparr>symbol = s, vma = sym_value s + sec_vma (sym_section s), symb_size = 0\<rparr>"

fun collect_loop :: "asymbol list \<Rightarrow> op_bfd_symbol list \<Rightarrow> op_bfd_symbol list" where
  "collect_loop [] acc = acc"
| "collect_loop (s # rest) acc =
     (if interesting_symbol s then collect_loop rest (acc @ [new_symb s])
      else collect_loop rest acc)"

text \<open>
  \<open>std::stable_sort\<close> with \<open>symcomp\<close>: the sort by the key \<open>vma\<close> that keeps entries of
  equal key in their order.
\<close>

definition stable_sort :: "op_bfd_symbol list \<Rightarrow> op_bfd_symbol list" where
  "stable_sort xs = sort_key vma xs"

text \<open>The absolute file offset of a symbol, as a \<open>u32\<close>: \<open>u32 start = filepos + value\<close>.\<close>

definition sym_start :: "asymbol \<Rightarrow> u32" where
  "sym_start smb = ucast (sec_filepos (sym_section smb) + sym_value smb)"

text \<open>
  \<open>symbol_size\<close> (the branch compiled without \<open>USE_ELF_INTERNAL\<close>). It is only called
  with \<open>sym_idx\<close> below \<open>syms.size()\<close>.
\<close>

definition symbol_size :: "op_bfd_symbol list \<Rightarrow> uint \<Rightarrow> nat \<Rightarrow> size_t" where
  "symbol_size sy nr sym_idx =
     (let smb = symbol (sy ! sym_idx);
          start = sym_start smb;
          endv = (if sym_idx = length sy - 1 then nr
                 else let next = symbol (sy ! (sym_idx + 1))
                      in u32_add_assign (ucast (sym_value next)) (sec_filepos (sym_section next)))
      in ucast (endv - start))"

function size_loop :: "uint \<Rightarrow> nat \<Rightarrow> op_bfd_symbol list \<Rightarrow> op_bfd_symbol list" where
  "size_loop nr i sy =
     (if i < length sy
      then size_loop nr (i + 1) (sy[i := (sy ! i)\<lparr>symb_size := symbol_size sy nr i\<rparr>])
      else sy)"
  by pat_completeness auto
termination
  by (relation "measure (\<lambda>(nr, i, sy). length sy - i)") auto

declare size_loop.simps [simp del]

text \<open>\<open>syms.erase(syms.begin() + i)\<close>\<close>

definition erase :: "nat \<Rightarrow> 'a list \<Rightarrow> 'a list" where
  "erase i xs = take i xs @ drop (i + 1) xs"

text \<open>
  The duplicate scan. After an erase the source decrements \<open>i\<close> and the loop header
  increments it: the next test is at the same \<open>i\<close>.
\<close>

function dedup_loop :: "nat \<Rightarrow> op_bfd_symbol list \<Rightarrow> op_bfd_symbol list" where
  "dedup_loop i sy =
     (if i < length sy
      then (if vma (sy ! i) = vma (sy ! (i - 1)) then dedup_loop i (erase i sy)
            else dedup_loop (i + 1) sy)
      else sy)"
  by pat_completeness auto
termination
  by (relation "measure (\<lambda>(i, sy). length sy - i)") (auto simp: erase_def)

declare dedup_loop.simps [simp del]

text \<open>
  The same scan written by recursion on the list, for the proofs: of two neighbours with
  the same \<open>vma\<close> the second goes, and the first is compared with the next one.
\<close>

fun drop_later :: "op_bfd_symbol list \<Rightarrow> op_bfd_symbol list" where
  "drop_later (x # y # zs) = (if vma y = vma x then drop_later (x # zs) else x # drop_later (y # zs))"
| "drop_later xs = xs"

text \<open>
  Modelled from the spec: \<open>is_excluded_symbol\<close> is declared outside the files at hand;
  the spec's step 7 removes the entries whose name matches a caller-supplied exclusion
  list by exact string match. The list is a parameter. The name tested is never null:
  the filter dropped the symbols without a name.
\<close>

definition is_excluded_symbol :: "string list \<Rightarrow> string option \<Rightarrow> bool" where
  "is_excluded_symbol excl nm = (case nm of None \<Rightarrow> False | Some n \<Rightarrow> n \<in> set excl)"

function exclude_loop :: "string list \<Rightarrow> nat \<Rightarrow> op_bfd_symbol list \<Rightarrow> op_bfd_symbol list" where
  "exclude_loop excl i sy =
     (if i < length sy
      then (if is_excluded_symbol excl (sym_name (symbol (sy ! i)))
            then exclude_loop excl i (erase i sy)
            else exclude_loop excl (i + 1) sy)
      else sy)"
  by pat_completeness auto
termination
  by (relation "measure (\<lambda>(excl, i, sy). length sy - i)") (auto simp: erase_def)

declare exclude_loop.simps [simp del]

text \<open>
  \<open>get_symbols\<close>: the flag returned and the object with its \<open>syms\<close> filled. The intermediate
  vectors are named, since the loops run one after the other on the same vector.
  \<open>symtab_upper_bound\<close> is the value of \<open>bfd_get_symtab_upper_bound\<close> as the \<open>size_t\<close> the
  source stores it in, and \<open>symtab\<close> holds the \<open>nr_all_syms\<close> symbols that
  \<open>bfd_canonicalize_symtab\<close> wrote. The model covers the runs in which the allocation
  \<open>new asymbol * [size]\<close> succeeds and the count fits the \<open>uint\<close> it is stored in; an error
  return \<open>-1\<close> of either BFD call is outside it.
\<close>

definition sorted_syms :: "op_bfd \<Rightarrow> op_bfd_symbol list" where
  "sorted_syms b = stable_sort (collect_loop (symtab (ibfd b)) (syms b))"

definition sized_syms :: "op_bfd \<Rightarrow> op_bfd_symbol list" where
  "sized_syms b = size_loop (nr_samples b) 0 (sorted_syms b)"

definition dedup_syms :: "op_bfd \<Rightarrow> op_bfd_symbol list" where
  "dedup_syms b = dedup_loop 1 (sized_syms b)"

definition get_symbols :: "string list \<Rightarrow> op_bfd \<Rightarrow> bool \<times> op_bfd" where
  "get_symbols excl b =
     (if file_flags (ibfd b) AND HAS_SYMS = 0 then (False, b)
      else if symtab_upper_bound (ibfd b) < 1 then (False, b)
      else if length (symtab (ibfd b)) < 1 then (False, b)
      else let sy = exclude_loop excl 0 (dedup_syms b)
           in (sy \<noteq> [], b\<lparr>syms := sy\<rparr>))"

section \<open>Opening an image\<close>

text \<open>\<open>bfd_get_section_by_name\<close>: the first section of that name, or null.\<close>

definition bfd_get_section_by_name :: "bfd \<Rightarrow> string \<Rightarrow> asection option" where
  "bfd_get_section_by_name abfd nm = find (\<lambda>s. sec_name s = nm) (sections abfd)"

text \<open>
  \<open>open_bfd_image\<close>. \<open>openr\<close> is \<open>bfd_openr\<close>: the handle of a file name, or null.
  \<open>sect->filepos\<close> is read through the pointer \<open>bfd_get_section_by_name\<close> returned,
  without a test.
\<close>

definition open_bfd_image ::
  "(string \<Rightarrow> bfd option) \<Rightarrow> string list \<Rightarrow> string \<Rightarrow> bool \<Rightarrow> op_bfd \<Rightarrow> error + op_bfd" where
  "open_bfd_image openr excl filename is_kernel b =
     (case openr filename of
        None \<Rightarrow> Inl Exit_openr_failed
      | Some abfd \<Rightarrow>
          if \<not> format_matches abfd then Inl Exit_format_failure
          else let b1 = b\<lparr>ibfd := abfd\<rparr> in
            if is_kernel then
              (case bfd_get_section_by_name abfd ''.text'' of
                 None \<Rightarrow> Inl Null_dereference
               | Some sect \<Rightarrow>
                   Inr (snd (get_symbols excl (b1\<lparr>sect_offset := ucast (sec_filepos sect)\<rparr>))))
            else Inr (snd (get_symbols excl b1)))"

text \<open>
  The constructor. \<open>fsize\<close> is \<open>op_get_fsize\<close>; the handle before \<open>bfd_openr\<close> is null and
  never read, so any \<open>bfd\<close> stands for it. The comparison of the modification times only
  prints a warning. The value handed to \<open>samples.set_sect_offset\<close> is the \<open>sect_offset\<close>
  of the result.
\<close>

definition null_bfd :: bfd where
  "null_bfd = \<lparr>format_matches = False, file_flags = 0, symtab_upper_bound = 0,
               symtab = [], sections = []\<rparr>"

definition op_bfd_ctor ::
  "(string \<Rightarrow> bfd option) \<Rightarrow> (string \<Rightarrow> 64 word) \<Rightarrow> string list \<Rightarrow> bool \<Rightarrow> string
     \<Rightarrow> error + op_bfd" where
  "op_bfd_ctor openr fsize excl is_kernel filename =
     (if length filename = 0 then Inl Exit_empty_filename
      else open_bfd_image openr excl filename is_kernel
             \<lparr>ibfd = null_bfd, syms = [], nr_samples = ucast (fsize filename), sect_offset = 0\<rparr>)"

section \<open>Queries on the table\<close>

text \<open>\<open>sym_offset\<close>, called with an index of the table.\<close>

definition sym_offset :: "op_bfd \<Rightarrow> nat \<Rightarrow> u32 \<Rightarrow> u32" where
  "sym_offset b sym_index num =
     (let num1 = u32_sub_assign num (sec_filepos (sym_section (symbol (syms b ! sym_index))));
          num2 = u32_sub_assign num1 (sym_value (symbol (syms b ! sym_index)))
      in num2)"

text \<open>
  \<open>get_symbol_range\<close>: the pair \<open>(start, end)\<close> it stores, or the exit it takes.
  \<open>start = sym->value; start += sym->section->filepos\<close> converts the value to \<open>u32\<close>
  and adds the file position; \<open>end = start + syms[sym_idx].size\<close> adds a \<open>size_t\<close> to a
  \<open>u32\<close> and converts the sum back.
\<close>

definition range_start :: "op_bfd_symbol \<Rightarrow> u32" where
  "range_start e =
     u32_add_assign (ucast (sym_value (symbol e))) (sec_filepos (sym_section (symbol e)))"

definition range_end :: "op_bfd_symbol \<Rightarrow> u32" where
  "range_end e = ucast ((ucast (range_start e) :: 64 word) + symb_size e)"

definition get_symbol_range :: "op_bfd \<Rightarrow> nat \<Rightarrow> error + (u32 \<times> u32)" where
  "get_symbol_range b sym_idx =
     (let start = range_start (syms b ! sym_idx);
          endv = range_end (syms b ! sym_idx)
      in if start \<ge> nr_samples b + sect_offset b then Inl Exit_start_out_of_range
         else if endv > nr_samples b + sect_offset b then Inl Exit_end_out_of_range
         else if start > endv then Inl Exit_start_after_end
         else Inr (start, endv))"

text \<open>
  \<open>symbol_index\<close>: \<open>nil_symbol_index\<close> is \<open>None\<close>. The names in the table are never null.
\<close>

fun symbol_index_loop :: "op_bfd_symbol list \<Rightarrow> nat \<Rightarrow> string \<Rightarrow> nat option" where
  "symbol_index_loop [] i nm = None"
| "symbol_index_loop (s # rest) i nm =
     (if sym_name (symbol s) = Some nm then Some i else symbol_index_loop rest (i + 1) nm)"

definition symbol_index :: "op_bfd \<Rightarrow> string \<Rightarrow> nat option" where
  "symbol_index b nm = symbol_index_loop (syms b) 0 nm"

section \<open>Line numbers\<close>

text \<open>
  The three variables \<open>bfd_find_nearest_line\<close> writes through: \<open>filename\<close> and \<open>linenr\<close>
  are the caller's, \<open>functionname\<close> is local to \<open>get_linenr\<close>.
\<close>

record line_vars =
  filename :: "string option"
  functionname :: "string option"
  linenr :: uint

text \<open>
  \<open>bfd_find_nearest_line\<close> is the BFD library's: for a section and an address it returns
  a flag and may store into the three variables. It is a parameter: a function of the
  section, the address and the variables as they are before the call.
\<close>

type_synonym nearest_line = "asection \<Rightarrow> bfd_vma \<Rightarrow> line_vars \<Rightarrow> bool \<times> line_vars"

text \<open>
  \<open>strcmp(a, b) != 0\<close>. Either argument may be a null pointer in the source, which
  \<open>strcmp\<close> dereferences.
\<close>

definition strcmp_differs :: "string option \<Rightarrow> string option \<Rightarrow> error + bool" where
  "strcmp_differs a b =
     (case a of None \<Rightarrow> Inl Null_dereference
      | Some x \<Rightarrow> (case b of None \<Rightarrow> Inl Null_dereference | Some y \<Rightarrow> Inr (x \<noteq> y)))"

text \<open>
  What \<open>get_linenr\<close> leaves: the flag returned, the three variables, and \<open>calls\<close>, the
  addresses handed to \<open>bfd_find_nearest_line\<close>, in the order of the calls.
\<close>

record linenr_result =
  ret :: bool
  vars :: line_vars
  calls :: "bfd_vma list"

text \<open>
  The forward scan \<open>for (size_t i = 1; i < max_search; ++i)\<close>. The flag of the result
  says whether the loop left through \<open>return ret\<close> (true) or ran to its end.
\<close>

function probe_loop ::
  "nearest_line \<Rightarrow> asection \<Rightarrow> string option \<Rightarrow> bfd_vma \<Rightarrow> size_t \<Rightarrow> size_t
     \<Rightarrow> line_vars \<Rightarrow> bfd_vma list \<Rightarrow> error + linenr_result" where
  "probe_loop fnl sect nm pc max_search i v cs =
     (if i < max_search
      then (let r = fnl sect (pc + i) v; cs1 = cs @ [pc + i]
            in if fst r \<and> linenr (snd r) \<noteq> 0
               then (case strcmp_differs (functionname (snd r)) nm of
                       Inl e \<Rightarrow> Inl e
                     | Inr d \<Rightarrow>
                         if \<not> d then Inr \<lparr>ret = True, vars = snd r, calls = cs1\<rparr>
                         else probe_loop fnl sect nm pc max_search (i + 1) (snd r) cs1)
               else probe_loop fnl sect nm pc max_search (i + 1) (snd r) cs1)
      else Inr \<lparr>ret = False, vars = v, calls = cs\<rparr>)"
  by pat_completeness auto
termination
  by (relation "measure (\<lambda>(fnl, sect, nm, pc, max_search, i, v, cs). unat max_search - unat i)")
     (simp, unat_arith, unat_arith)

declare probe_loop.simps [simp del]

text \<open>
  \<open>get_linenr\<close>. \<open>fn0\<close> is the value of the uninitialised local \<open>functionname\<close>. The first
  part is the code up to the first lookup and the two tests on its result: the flag
  \<open>ret\<close> and the variables as they stand before the test \<open>linenr == 0\<close>.
\<close>

definition get_pc :: "op_bfd \<Rightarrow> nat \<Rightarrow> uint \<Rightarrow> bfd_vma" where
  "get_pc b sym_idx offset =
     ucast (sym_offset b sym_idx offset) + sym_value (symbol (syms b ! sym_idx))"

definition first_lookup ::
  "nearest_line \<Rightarrow> op_bfd \<Rightarrow> nat \<Rightarrow> uint \<Rightarrow> string option \<Rightarrow> error + (bool \<times> line_vars)" where
  "first_lookup fnl b sym_idx offset fn0 =
     (let section = sym_section (symbol (syms b ! sym_idx));
          pc = get_pc b sym_idx offset;
          r = fnl section pc \<lparr>filename = None, functionname = fn0, linenr = 0\<rparr>;
          r1 = (if filename (snd r) = None \<or> fst r = False
                then (False, (snd r)\<lparr>filename := Some [], linenr := 0\<rparr>)
                else r)
      in if fst r1 = True \<and> functionname (snd r1) \<noteq> None
         then (case strcmp_differs (functionname (snd r1)) (sym_name (symbol (syms b ! sym_idx))) of
                 Inl e \<Rightarrow> Inl e
               | Inr d \<Rightarrow> if d then Inr (False, snd r1) else Inr r1)
         else Inr r1)"

definition get_linenr ::
  "nearest_line \<Rightarrow> op_bfd \<Rightarrow> nat \<Rightarrow> uint \<Rightarrow> string option \<Rightarrow> error + linenr_result" where
  "get_linenr fnl b sym_idx offset fn0 =
     (let v0 = \<lparr>filename = None, functionname = fn0, linenr = 0\<rparr>;
          section = sym_section (symbol (syms b ! sym_idx))
      in if sec_flags section AND SEC_ALLOC = 0
         then Inr \<lparr>ret = False, vars = v0, calls = []\<rparr>
         else let pc = get_pc b sym_idx offset
           in if pc \<ge> sec_size section
              then Inr \<lparr>ret = False, vars = v0, calls = []\<rparr>
              else (case first_lookup fnl b sym_idx offset fn0 of
                      Inl e \<Rightarrow> Inl e
                    | Inr r1 \<Rightarrow>
                        if linenr (snd r1) = 0
                        then (let section_size = sec_size section;
                                  max_search = (if pc + 16 > section_size
                                                then section_size - pc else 16)
                              in case probe_loop fnl section
                                        (sym_name (symbol (syms b ! sym_idx)))
                                        pc max_search 1 (snd r1) [pc] of
                                   Inl e \<Rightarrow> Inl e
                                 | Inr w \<Rightarrow>
                                     if ret w then Inr w
                                     else Inr \<lparr>ret = fst r1,
                                               vars = snd (fnl section pc (vars w)),
                                               calls = calls w @ [pc]\<rparr>)
                        else Inr \<lparr>ret = fst r1, vars = snd r1, calls = [pc]\<rparr>))"

section \<open>Example images\<close>

text \<open>
  A code section at file position \<open>0x100\<close> and a data section, and symbols in them.
\<close>

definition ex_text :: asection where
  "ex_text = \<lparr>sec_name = ''.text'', sec_flags = 0x11, sec_vma = 0x1000,
              sec_filepos = 0x100, sec_size = 0x400\<rparr>"

definition ex_data :: asection where
  "ex_data = \<lparr>sec_name = ''.data'', sec_flags = 0x01, sec_vma = 0x2000,
              sec_filepos = 0x500, sec_size = 0x100\<rparr>"

definition ex_sym :: "string \<Rightarrow> bfd_vma \<Rightarrow> asection \<Rightarrow> asymbol" where
  "ex_sym nm v sect = \<lparr>sym_name = Some nm, sym_value = v, sym_section = sect\<rparr>"

definition ex_bfd :: "asymbol list \<Rightarrow> asection list \<Rightarrow> bfd" where
  "ex_bfd ss sects = \<lparr>format_matches = True, file_flags = 0x10,
      symtab_upper_bound = 8 * (of_nat (length ss) + 1), symtab = ss, sections = sects\<rparr>"

definition ex_openr :: "bfd \<Rightarrow> string \<Rightarrow> bfd option" where
  "ex_openr abfd fname = (if fname = ''a.out'' then Some abfd else None)"

text \<open>
  A symbol table with two pairs of symbols at the same address, a local label and a data
  symbol, out of address order; the file has \<open>0x1000\<close> bytes.
\<close>

definition ex_symtab :: "asymbol list" where
  "ex_symtab = [ex_sym ''helper'' 0x20 ex_text, ex_sym ''main'' 0x10 ex_text,
     ex_sym ''.Lfoo'' 0x18 ex_text, ex_sym ''alias'' 0x10 ex_text,
     ex_sym ''counter'' 0x0 ex_data, ex_sym ''tail'' 0x30 ex_text,
     ex_sym ''helper2'' 0x20 ex_text]"

definition ex_open :: "asymbol list \<Rightarrow> asection list \<Rightarrow> string list \<Rightarrow> bool \<Rightarrow> error + op_bfd" where
  "ex_open ss sects excl is_kernel =
     op_bfd_ctor (ex_openr (ex_bfd ss sects)) (\<lambda>f. 0x1000) excl is_kernel ''a.out''"

text \<open>The object the constructor builds from \<open>ex_symtab\<close>, nothing excluded.\<close>

definition ex_built :: op_bfd where
  "ex_built = projr (ex_open ex_symtab [ex_text, ex_data] [] False)"

text \<open>Three symbols at three addresses, and the objects built from them.\<close>

definition ex_plain :: "asymbol list" where
  "ex_plain = [ex_sym ''main'' 0x10 ex_text, ex_sym ''helper'' 0x20 ex_text,
               ex_sym ''tail'' 0x30 ex_text]"

definition ex_plain_built :: op_bfd where
  "ex_plain_built = projr (ex_open ex_plain [ex_text] [] False)"

definition ex_excl_built :: op_bfd where
  "ex_excl_built = projr (ex_open ex_plain [ex_text] [''helper''] False)"

text \<open>
  Line lookups for the examples: one that names another function at line 42, one that
  gives line 42 and no function name, and one that has no line at address \<open>0x10\<close> and,
  at the addresses after it, line 7 without a function name.
\<close>

definition fnl_other :: nearest_line where
  "fnl_other sect pc v =
     (True, \<lparr>filename = Some ''a.c'', functionname = Some ''other'', linenr = 42\<rparr>)"

definition fnl_nofunc :: nearest_line where
  "fnl_nofunc sect pc v =
     (True, \<lparr>filename = Some ''a.c'', functionname = None, linenr = 42\<rparr>)"

definition fnl_prologue :: nearest_line where
  "fnl_prologue sect pc v =
     (if pc = 0x10
      then (True, \<lparr>filename = Some ''a.c'', functionname = Some ''main'', linenr = 0\<rparr>)
      else (True, \<lparr>filename = Some ''a.c'', functionname = None, linenr = 7\<rparr>))"

section \<open>Conversions between the 32-bit and the 64-bit types\<close>

lemma ucast_add_64_32: "(ucast ((a::64 word) + b) :: 32 word) = ucast a + ucast b"
  by (simp add: word_eq_iff_unsigned[where ?'a=nat] unsigned_ucast_eq unat_word_ariths
      take_bit_eq_mod mod_mod_cancel mod_add_eq)

lemma ucast_sub_64_32: "(ucast ((a::64 word) - b) :: 32 word) = ucast a - ucast b"
  by (metis ucast_add_64_32 add_diff_cancel_right' diff_add_cancel)

lemma ucast_32_64_32: "(ucast (ucast (a::32 word) :: 64 word) :: 32 word) = a"
  by (simp add: ucast_up_ucast_id is_up)

lemma uint_ucast_64_32: "uint (ucast (a :: 64 word) :: 32 word) = uint a mod 2 ^ 32"
  by (simp add: unsigned_ucast_eq take_bit_eq_mod)

lemma u32_add_assign_eq: "u32_add_assign n x = n + ucast x"
  unfolding u32_add_assign_def
  by (simp add: ucast_add_64_32 ucast_32_64_32)

lemma u32_sub_assign_eq: "u32_sub_assign n x = n - ucast x"
  unfolding u32_sub_assign_def
  by (simp add: ucast_sub_64_32 ucast_32_64_32)

section \<open>The filter\<close>

lemma boring_loop_iff: "boring_loop bs nm \<longleftrightarrow> nm \<in> set bs"
  by (induction bs) auto

lemma local_label_iff: "local_label nm \<longleftrightarrow> prefix ''.L'' nm"
  by (cases nm rule: local_label.cases) auto

lemma collect_loop_eq:
  "collect_loop ss acc = acc @ map new_symb (filter interesting_symbol ss)"
  by (induction ss arbitrary: acc) auto

text \<open>
  Claim C3. \<open>interesting_symbol\<close> keeps a raw symbol exactly when its section has the
  \<open>SEC_CODE\<close> flag, its name is present and not empty, the name does not begin with
  \<open>.L\<close>, and the name is neither \<open>gcc2_compiled.\<close> nor \<open>_init\<close>. The first loop of
  \<open>get_symbols\<close> pushes the symbols the filter keeps, in the order of the symbol table:
  the decision for one symbol does not depend on the others.
\<close>

theorem interesting_symbol_exact:
  "(interesting_symbol s \<longleftrightarrow>
      sec_flags (sym_section s) AND SEC_CODE \<noteq> 0 \<and>
      (\<exists>nm. sym_name s = Some nm \<and> nm \<noteq> [] \<and> \<not> prefix ''.L'' nm \<and>
            nm \<noteq> ''gcc2_compiled.'' \<and> nm \<noteq> ''_init''))
   \<and> collect_loop ss [] = map new_symb (filter interesting_symbol ss)"
  by (auto simp: interesting_symbol_def boring_loop_iff local_label_iff boring_symbols_def
      collect_loop_eq split: option.splits)

theorem interesting_symbol_exact_witness:
  "interesting_symbol (ex_sym ''main'' 0x10 ex_text) \<and>
   \<not> interesting_symbol (ex_sym ''.Lfoo'' 0x10 ex_text) \<and>
   \<not> interesting_symbol (ex_sym ''gcc2_compiled.'' 0x10 ex_text) \<and>
   \<not> interesting_symbol (ex_sym ''_init'' 0x10 ex_text) \<and>
   \<not> interesting_symbol (ex_sym [] 0x10 ex_text) \<and>
   \<not> interesting_symbol (ex_sym ''main'' 0x10 ex_data)"
  using interesting_symbol_exact [of "ex_sym ''main'' 0x10 ex_text" "[]"]
    interesting_symbol_exact [of "ex_sym ''.Lfoo'' 0x10 ex_text" "[]"]
    interesting_symbol_exact [of "ex_sym ''gcc2_compiled.'' 0x10 ex_text" "[]"]
    interesting_symbol_exact [of "ex_sym ''_init'' 0x10 ex_text" "[]"]
    interesting_symbol_exact [of "ex_sym [] 0x10 ex_text" "[]"]
    interesting_symbol_exact [of "ex_sym ''main'' 0x10 ex_data" "[]"]
  by (simp add: ex_sym_def ex_text_def ex_data_def SEC_CODE_def)

section \<open>Offsets within a symbol\<close>

lemma sym_offset_eq:
  "sym_offset b i num =
     num - ucast (sec_filepos (sym_section (symbol (syms b ! i))))
         - ucast (sym_value (symbol (syms b ! i)))"
  by (simp add: sym_offset_def u32_sub_assign_eq Let_def)

text \<open>
  Claim C10. \<open>sym_offset\<close> has no range check and no exit: for an index of the table and
  any raw offset its result, read as an unsigned number, is the raw offset minus the
  section's file position minus the symbol's value, modulo \<open>2^32\<close>. A raw offset below
  the symbol's start wraps around.
\<close>

theorem sym_offset_wraps:
  "uint (sym_offset b i num) =
     (uint num - uint (sec_filepos (sym_section (symbol (syms b ! i))))
               - uint (sym_value (symbol (syms b ! i)))) mod 2 ^ 32"
  by (simp add: sym_offset_eq uint_word_ariths uint_ucast_64_32
      mod_diff_eq mod_diff_right_eq mod_diff_left_eq)

section \<open>The loops of \<open>get_symbols\<close>\<close>

lemma drop_later_short: "length xs \<le> 1 \<Longrightarrow> drop_later xs = xs"
  by (cases xs rule: drop_later.cases) auto

lemma erase_nth_split:
  assumes "Suc k < length xs"
  shows "erase (Suc k) xs = take k xs @ xs ! k # drop (Suc (Suc k)) xs"
  using assms by (simp add: erase_def take_Suc_conv_app_nth)

lemma drop_split2:
  assumes "Suc k < length xs"
  shows "drop k xs = xs ! k # xs ! Suc k # drop (Suc (Suc k)) xs"
  using assms by (metis Cons_nth_drop_Suc Suc_lessD)

lemma dedup_loop_eq:
  "dedup_loop (Suc k) xs = take k xs @ drop_later (drop k xs)"
proof (induction "Suc k" xs arbitrary: k rule: dedup_loop.induct)
  case (1 sy)
  show ?case
  proof (cases "Suc k < length sy")
    case False
    then have "drop_later (drop k sy) = drop k sy"
      by (intro drop_later_short) simp
    with False show ?thesis by (simp add: dedup_loop.simps[of "Suc k" sy])
  next
    case True
    note split = drop_split2[OF True]
    show ?thesis
    proof (cases "vma (sy ! Suc k) = vma (sy ! k)")
      case same: True
      have "dedup_loop (Suc k) sy = dedup_loop (Suc k) (erase (Suc k) sy)"
        using True same by (simp add: dedup_loop.simps[of "Suc k" sy])
      also have "\<dots> = take k (erase (Suc k) sy) @ drop_later (drop k (erase (Suc k) sy))"
        using "1.hyps"(1) True same by simp
      also have "take k (erase (Suc k) sy) = take k sy"
        using True by (simp add: erase_nth_split)
      also have "drop k (erase (Suc k) sy) = sy ! k # drop (Suc (Suc k)) sy"
        using True by (simp add: erase_nth_split)
      finally show ?thesis using same by (simp add: split)
    next
      case diff: False
      have "dedup_loop (Suc k) sy = dedup_loop (Suc (Suc k)) sy"
        using True diff by (simp add: dedup_loop.simps[of "Suc k" sy])
      also have "\<dots> = take (Suc k) sy @ drop_later (drop (Suc k) sy)"
        using "1.hyps"(2) True diff by simp
      finally have step: "dedup_loop (Suc k) sy = take (Suc k) sy @ drop_later (drop (Suc k) sy)" .
      have d1: "drop (Suc k) sy = sy ! Suc k # drop (Suc (Suc k)) sy"
        using True by (simp add: Cons_nth_drop_Suc)
      have t1: "take (Suc k) sy = take k sy @ [sy ! k]"
        using True by (simp add: take_Suc_conv_app_nth)
      show ?thesis using diff by (simp add: step split d1 t1)
    qed
  qed
qed

lemma exclude_loop_eq:
  "exclude_loop excl i xs =
     take i xs @ filter (\<lambda>e. \<not> is_excluded_symbol excl (sym_name (symbol e))) (drop i xs)"
proof (induction excl i xs rule: exclude_loop.induct)
  case (1 excl i sy)
  show ?case
  proof (cases "i < length sy")
    case False
    then show ?thesis by (simp add: exclude_loop.simps[of excl i sy])
  next
    case True
    then have d: "drop i sy = sy ! i # drop (Suc i) sy"
      by (simp add: Cons_nth_drop_Suc)
    show ?thesis
    proof (cases "is_excluded_symbol excl (sym_name (symbol (sy ! i)))")
      case ex: True
      have "take i (erase i sy) = take i sy" "drop i (erase i sy) = drop (Suc i) sy"
        using True by (simp_all add: erase_def)
      then show ?thesis using "1.IH"(1)[OF True ex] True ex
        by (simp add: exclude_loop.simps[of excl i sy] d)
    next
      case nex: False
      then show ?thesis using "1.IH"(2)[OF True nex] True
        by (simp add: exclude_loop.simps[of excl i sy] d take_Suc_conv_app_nth)
    qed
  qed
qed

lemma range_start_eq: "range_start e = sym_start (symbol e)"
  by (simp add: range_start_def sym_start_def u32_add_assign_eq ucast_add_64_32 add.commute)

lemma range_end_eq: "range_end e = range_start e + ucast (symb_size e)"
  by (simp add: range_end_def ucast_add_64_32 ucast_32_64_32)

lemma symbol_size_eq:
  "symbol_size sy nr j =
     ucast ((if j = length sy - 1 then nr else sym_start (symbol (sy ! (j + 1))))
            - sym_start (symbol (sy ! j)))"
  by (simp add: symbol_size_def Let_def u32_add_assign_eq sym_start_def ucast_add_64_32 add.commute)

lemma symbol_size_update:
  assumes "i < length sy"
  shows "symbol_size (sy[i := (sy ! i)\<lparr>symb_size := v\<rparr>]) nr j = symbol_size sy nr j"
proof -
  have "symbol (sy[i := (sy ! i)\<lparr>symb_size := v\<rparr>] ! k) = symbol (sy ! k)" for k
    using assms by (cases "k = i") simp_all
  then show ?thesis by (simp add: symbol_size_eq)
qed

lemma size_loop_length: "length (size_loop nr i sy) = length sy"
proof (induction nr i sy rule: size_loop.induct)
  case (1 nr i sy)
  then show ?case
    by (cases "i < length sy") (simp_all add: size_loop.simps[of nr i sy])
qed

lemma size_loop_nth:
  "j < length sy \<Longrightarrow>
   size_loop nr i sy ! j =
     (if i \<le> j then (sy ! j)\<lparr>symb_size := symbol_size sy nr j\<rparr> else sy ! j)"
proof (induction nr i sy rule: size_loop.induct)
  case (1 nr i sy)
  show ?case
  proof (cases "i < length sy")
    case False
    with "1.prems" show ?thesis by (simp add: size_loop.simps[of nr i sy])
  next
    case True
    let ?sy' = "sy[i := (sy ! i)\<lparr>symb_size := symbol_size sy nr i\<rparr>]"
    have "size_loop nr i sy ! j = size_loop nr (i + 1) ?sy' ! j"
      using True by (simp add: size_loop.simps[of nr i sy])
    also have "\<dots> = (if i + 1 \<le> j then (?sy' ! j)\<lparr>symb_size := symbol_size ?sy' nr j\<rparr> else ?sy' ! j)"
      using "1.IH"[OF True] "1.prems" by simp
    also have "\<dots> = (if i \<le> j then (sy ! j)\<lparr>symb_size := symbol_size sy nr j\<rparr> else sy ! j)"
    proof (cases "j = i")
      case True
      with \<open>i < length sy\<close> show ?thesis by (simp add: symbol_size_update)
    next
      case False
      with \<open>i < length sy\<close> "1.prems" show ?thesis
        by (auto simp: symbol_size_update)
    qed
    finally show ?thesis .
  qed
qed

lemma size_loop_0_nth:
  "j < length sy \<Longrightarrow> size_loop nr 0 sy ! j = (sy ! j)\<lparr>symb_size := symbol_size sy nr j\<rparr>"
  by (simp add: size_loop_nth)

lemma size_loop_map_vma: "map vma (size_loop nr 0 sy) = map vma sy"
  by (rule nth_equalityI) (simp_all add: size_loop_length size_loop_0_nth)

lemma size_loop_map_symbol: "map symbol (size_loop nr 0 sy) = map symbol sy"
  by (rule nth_equalityI) (simp_all add: size_loop_length size_loop_0_nth)

lemma size_loop_contiguous:
  assumes "Suc j < length sy"
  shows "range_end (size_loop nr 0 sy ! j) = range_start (size_loop nr 0 sy ! Suc j)"
proof -
  from assms have "j \<noteq> length sy - 1" and "j < length sy" by arith+
  with assms show ?thesis
    by (simp add: range_end_eq range_start_eq size_loop_0_nth symbol_size_eq ucast_32_64_32)
qed

lemma size_loop_last:
  assumes "sy \<noteq> []"
  shows "range_end (last (size_loop nr 0 sy)) = nr"
proof -
  have ne: "size_loop nr 0 sy \<noteq> []"
    using assms size_loop_length[of nr 0 sy] by (metis length_0_conv)
  have lt: "length sy - 1 < length sy"
    using assms by (cases sy) simp_all
  have "last (size_loop nr 0 sy) = size_loop nr 0 sy ! (length sy - 1)"
    using ne by (simp add: last_conv_nth size_loop_length)
  then show ?thesis using lt
    by (simp add: range_end_eq range_start_eq size_loop_0_nth symbol_size_eq ucast_32_64_32)
qed

lemma drop_later_subset: "set (drop_later xs) \<subseteq> set xs"
  by (induction xs rule: drop_later.induct) auto

lemma drop_later_hd: "xs \<noteq> [] \<Longrightarrow> hd (drop_later xs) = hd xs"
  by (induction xs rule: drop_later.induct) auto

lemma drop_later_nonempty: "xs \<noteq> [] \<Longrightarrow> drop_later xs \<noteq> []"
  by (induction xs rule: drop_later.induct) auto

lemma drop_later_strict:
  "sorted (map vma xs) \<Longrightarrow> sorted_wrt (<) (map vma (drop_later xs))"
proof (induction xs rule: drop_later.induct)
  case (1 x y zs)
  show ?case
  proof (cases "vma y = vma x")
    case True
    with 1 show ?thesis by simp
  next
    case False
    with "1.prems" have lt: "vma x < vma y" by (auto simp: less_le)
    have "\<forall>e \<in> set (drop_later (y # zs)). vma y \<le> vma e"
      using "1.prems" drop_later_subset[of "y # zs"] by auto
    with lt False 1 show ?thesis by fastforce
  qed
qed simp_all

lemma drop_later_id:
  "distinct (map vma xs) \<Longrightarrow> drop_later xs = xs"
  by (induction xs rule: drop_later.induct) auto

lemma drop_later_first:
  "sorted (map vma xs) \<Longrightarrow> e \<in> set (drop_later xs) \<Longrightarrow>
   find (\<lambda>c. vma c = vma e) xs = Some e"
proof (induction xs rule: drop_later.induct)
  case (1 x y zs)
  show ?case
  proof (cases "vma y = vma x")
    case True
    with 1 have "find (\<lambda>c. vma c = vma e) (x # zs) = Some e" by simp
    with True show ?thesis by (simp split: if_splits)
  next
    case False
    with "1.prems" have lt: "vma x < vma y" by (auto simp: less_le)
    show ?thesis
    proof (cases "e = x")
      case True
      then show ?thesis by simp
    next
      case ne: False
      with "1.prems" False have mem: "e \<in> set (drop_later (y # zs))" by simp
      then have "e \<in> set (y # zs)" using drop_later_subset by blast
      with "1.prems" have "vma y \<le> vma e" by auto
      with lt have "vma x \<noteq> vma e" by auto
      moreover have "find (\<lambda>c. vma c = vma e) (y # zs) = Some e"
        using "1.IH"(2)[OF False] "1.prems" mem by simp
      ultimately show ?thesis by simp
    qed
  qed
qed simp_all

lemma find_by_filter: "find P xs = (case filter P xs of [] \<Rightarrow> None | x # _ \<Rightarrow> Some x)"
  by (induction xs) simp_all

lemma find_filter_conj: "find Q (filter R xs) = find (\<lambda>x. R x \<and> Q x) xs"
  by (induction xs) simp_all

lemma find_map_comp: "find P (map f xs) = map_option f (find (\<lambda>x. P (f x)) xs)"
  by (induction xs) simp_all

lemma find_sort_key: "find (\<lambda>y. f y = k) (sort_key f xs) = find (\<lambda>y. f y = k) xs"
  by (simp add: find_by_filter sort_key_stable)

lemma get_symbols_syms:
  assumes "syms b = []"
  shows "syms (snd (get_symbols excl b)) = [] \<or>
         syms (snd (get_symbols excl b)) =
           filter (\<lambda>e. \<not> is_excluded_symbol excl (sym_name (symbol e)))
             (drop_later (size_loop (nr_samples b) 0
                (sort_key vma (map new_symb (filter interesting_symbol (symtab (ibfd b)))))))"
  using assms
  by (simp add: get_symbols_def Let_def dedup_syms_def sized_syms_def sorted_syms_def
      stable_sort_def collect_loop_eq exclude_loop_eq
      dedup_loop_eq[of 0, simplified])

lemma get_symbols_fields:
  "ibfd (snd (get_symbols excl b)) = ibfd b \<and>
   nr_samples (snd (get_symbols excl b)) = nr_samples b \<and>
   sect_offset (snd (get_symbols excl b)) = sect_offset b"
  by (simp add: get_symbols_def Let_def)

lemma ctor_table:
  assumes "op_bfd_ctor openr fsize excl is_kernel fname = Inr b"
  shows "nr_samples b = ucast (fsize fname) \<and>
         (syms b = [] \<or>
          syms b =
           filter (\<lambda>e. \<not> is_excluded_symbol excl (sym_name (symbol e)))
             (drop_later (size_loop (nr_samples b) 0
                (sort_key vma (map new_symb (filter interesting_symbol (symtab (ibfd b))))))))"
proof -
  let ?b0 = "\<lparr>ibfd = null_bfd, syms = [], nr_samples = ucast (fsize fname), sect_offset = 0\<rparr>"
  from assms obtain b1 where b: "b = snd (get_symbols excl b1)" and s: "syms b1 = []"
    and n: "nr_samples b1 = ucast (fsize fname)"
    by (auto simp: op_bfd_ctor_def open_bfd_image_def Let_def
        split: if_splits option.splits)
  from get_symbols_syms[OF s, of excl] get_symbols_fields[of excl b1] b n
  show ?thesis by simp
qed

lemma sized_sorted:
  "sorted (map vma (size_loop nr 0 (sort_key vma cs)))"
  by (simp add: size_loop_map_vma)

lemma sized_member:
  assumes "e \<in> set (size_loop nr 0 sy)"
  shows "\<exists>c \<in> set sy. symbol e = symbol c \<and> vma e = vma c"
proof -
  from assms obtain j where j: "j < length sy" and e: "e = size_loop nr 0 sy ! j"
    by (auto simp: in_set_conv_nth size_loop_length)
  then have "symbol e = symbol (sy ! j) \<and> vma e = vma (sy ! j)"
    by (simp add: size_loop_0_nth)
  with j show ?thesis by (metis nth_mem)
qed

lemma sized_find:
  assumes "find (\<lambda>c. vma c = v) (size_loop nr 0 sy) = Some e"
  shows "\<exists>c. find (\<lambda>c. vma c = v) sy = Some c \<and> symbol e = symbol c"
proof -
  from assms obtain i where i: "i < length sy" and p: "vma (size_loop nr 0 sy ! i) = v"
    and e: "e = size_loop nr 0 sy ! i" and m: "\<forall>j<i. vma (size_loop nr 0 sy ! j) \<noteq> v"
    by (auto simp: find_Some_iff size_loop_length)
  have "find (\<lambda>c. vma c = v) sy = Some (sy ! i)"
    unfolding find_Some_iff
  proof (intro exI[of _ i] conjI allI impI)
    show "i < length sy" by (rule i)
    show "vma (sy ! i) = v" using p i by (simp add: size_loop_0_nth)
    show "sy ! i = sy ! i" ..
    fix j assume "j < i"
    with m i show "vma (sy ! j) \<noteq> v" by (simp add: size_loop_0_nth)
  qed
  moreover have "symbol e = symbol (sy ! i)" using e i by (simp add: size_loop_0_nth)
  ultimately show ?thesis by blast
qed

lemma table_first:
  assumes "e \<in> set (drop_later (size_loop nr 0 (sort_key vma (map new_symb (filter interesting_symbol st)))))"
  shows "find (\<lambda>s. interesting_symbol s \<and> sym_value s + sec_vma (sym_section s) = vma e) st
           = Some (symbol e)"
proof -
  let ?cs = "map new_symb (filter interesting_symbol st)"
  have "find (\<lambda>c. vma c = vma e) (size_loop nr 0 (sort_key vma ?cs)) = Some e"
    using assms by (intro drop_later_first sized_sorted)
  then obtain c where c: "find (\<lambda>c. vma c = vma e) (sort_key vma ?cs) = Some c"
    and s: "symbol e = symbol c"
    using sized_find by blast
  from c have "find (\<lambda>c. vma c = vma e) ?cs = Some c"
    by (simp add: find_sort_key)
  then have "map_option new_symb
      (find (\<lambda>s. interesting_symbol s \<and> vma (new_symb s) = vma e) st) = Some c"
    by (simp add: find_map_comp find_filter_conj)
  then obtain s0 where
    "find (\<lambda>s. interesting_symbol s \<and> vma (new_symb s) = vma e) st = Some s0"
    "c = new_symb s0" by auto
  with s show ?thesis by (simp add: new_symb_def)
qed

lemma table_member:
  assumes "e \<in> set (drop_later (size_loop nr 0 (sort_key vma (map new_symb (filter interesting_symbol st)))))"
  shows "vma e = sym_value (symbol e) + sec_vma (sym_section (symbol e)) \<and>
         interesting_symbol (symbol e) \<and> symbol e \<in> set st"
proof -
  from assms drop_later_subset
  have "e \<in> set (size_loop nr 0 (sort_key vma (map new_symb (filter interesting_symbol st))))"
    by blast
  from sized_member[OF this] show ?thesis by (auto simp: new_symb_def)
qed

text \<open>
  Claim C2. The table an image is opened with is strictly ascending by virtual address,
  hence without two entries at the same address, whatever the symbol table holds; the
  address of an entry is its section's base plus the symbol's value.
\<close>

theorem table_strictly_ascending:
  assumes "op_bfd_ctor openr fsize excl is_kernel fname = Inr b"
  shows "sorted_wrt (<) (map vma (syms b)) \<and> distinct (map vma (syms b)) \<and>
         (\<forall>e \<in> set (syms b). vma e = sym_value (symbol e) + sec_vma (sym_section (symbol e)))"
proof -
  let ?t = "drop_later (size_loop (nr_samples b) 0
                (sort_key vma (map new_symb (filter interesting_symbol (symtab (ibfd b))))))"
  let ?f = "filter (\<lambda>e. \<not> is_excluded_symbol excl (sym_name (symbol e))) ?t"
  have "sorted_wrt (<) (map vma ?t)"
    by (intro drop_later_strict sized_sorted)
  then have s: "sorted_wrt (<) (map vma ?f)"
    by (simp add: sorted_wrt_map sorted_wrt_filter)
  have m: "\<forall>e \<in> set ?f. vma e = sym_value (symbol e) + sec_vma (sym_section (symbol e))"
    using table_member by auto
  from ctor_table[OF assms] have "syms b = [] \<or> syms b = ?f" by blast
  then have "sorted_wrt (<) (map vma (syms b)) \<and>
         (\<forall>e \<in> set (syms b). vma e = sym_value (symbol e) + sec_vma (sym_section (symbol e)))"
    using s m by auto
  then show ?thesis by (simp add: strict_sorted_iff)
qed

lemma ex_built_ok: "ex_open ex_symtab [ex_text, ex_data] [] False = Inr ex_built"
  unfolding ex_built_def by code_simp

lemma ex_built_vmas: "map vma (syms ex_built) = [0x1010, 0x1020, 0x1030]"
  unfolding ex_built_def by code_simp

lemma ex_built_names: "map (\<lambda>e. sym_name (symbol e)) (syms ex_built) = [Some ''main'', Some ''helper'', Some ''tail'']"
  unfolding ex_built_def by code_simp

theorem table_strictly_ascending_witness:
  "ex_open ex_symtab [ex_text, ex_data] [] False = Inr ex_built \<and>
   map vma (syms ex_built) = [0x1010, 0x1020, 0x1030] \<and>
   sorted_wrt (<) (map vma (syms ex_built)) \<and> distinct (map vma (syms ex_built))"
  using table_strictly_ascending [OF ex_built_ok [unfolded ex_open_def]] ex_built_ok ex_built_vmas
  by blast


section \<open>Lookup by name\<close>

lemma symbol_index_loop_None:
  "symbol_index_loop sy i nm = None \<longleftrightarrow> (\<forall>e \<in> set sy. sym_name (symbol e) \<noteq> Some nm)"
  by (induction sy i nm rule: symbol_index_loop.induct) auto

lemma symbol_index_loop_Some:
  "symbol_index_loop sy i nm = Some k \<longleftrightarrow>
     (\<exists>d. k = i + d \<and> d < length sy \<and> sym_name (symbol (sy ! d)) = Some nm \<and>
          (\<forall>j<d. sym_name (symbol (sy ! j)) \<noteq> Some nm))"
proof (induction sy i nm arbitrary: k rule: symbol_index_loop.induct)
  case (1 i nm)
  then show ?case by simp
next
  case (2 s rest i nm)
  let ?R = "\<lambda>xs d. d < length xs \<and> sym_name (symbol (xs ! d)) = Some nm \<and>
          (\<forall>j<d. sym_name (symbol (xs ! j)) \<noteq> Some nm)"
  show ?case
  proof (cases "sym_name (symbol s) = Some nm")
    case True
    have "?R (s # rest) d \<longleftrightarrow> d = 0" for d
      using True by (cases d) auto
    with True show ?thesis by auto
  next
    case False
    have step: "?R (s # rest) d \<longleftrightarrow> (\<exists>d'. d = Suc d' \<and> ?R rest d')" for d
    proof (cases d)
      case 0
      with False show ?thesis by simp
    next
      case (Suc d')
      have "(\<forall>j<Suc d'. sym_name (symbol ((s # rest) ! j)) \<noteq> Some nm) \<longleftrightarrow>
            (\<forall>j<d'. sym_name (symbol (rest ! j)) \<noteq> Some nm)"
        using False by (auto simp: less_Suc_eq_0_disj)
      with Suc show ?thesis by simp
    qed
    have "symbol_index_loop (s # rest) i nm = Some k \<longleftrightarrow>
          (\<exists>d'. k = i + 1 + d' \<and> ?R rest d')"
      using False "2.IH"[of k] by simp
    also have "\<dots> \<longleftrightarrow> (\<exists>d. k = i + d \<and> ?R (s # rest) d)"
      unfolding step by auto
    finally show ?thesis .
  qed
qed

lemma symbol_index_None:
  "symbol_index b nm = None \<longleftrightarrow> (\<forall>e \<in> set (syms b). sym_name (symbol e) \<noteq> Some nm)"
  by (simp add: symbol_index_def symbol_index_loop_None)

lemma symbol_index_Some:
  "symbol_index b nm = Some k \<longleftrightarrow>
     (k < length (syms b) \<and> sym_name (symbol (syms b ! k)) = Some nm \<and>
      (\<forall>j<k. sym_name (symbol (syms b ! j)) \<noteq> Some nm))"
  by (simp add: symbol_index_def symbol_index_loop_Some)


lemma drop_later_keeps_first:
  "find (\<lambda>c. vma c = v) xs = Some e \<Longrightarrow> e \<in> set (drop_later xs)"
proof (induction xs rule: drop_later.induct)
  case (1 x y zs)
  show ?case
  proof (cases "vma x = v")
    case True
    with "1.prems" have "e = x" by simp
    moreover have "x \<in> set (drop_later (x # y # zs))"
      using drop_later_hd[of "x # y # zs"] drop_later_nonempty[of "x # y # zs"]
      by (metis hd_in_set list.sel(1) list.distinct(1))
    ultimately show ?thesis by simp
  next
    case False
    show ?thesis
    proof (cases "vma y = vma x")
      case True
      with False "1.prems" have "find (\<lambda>c. vma c = v) (x # zs) = Some e" by simp
      with "1.IH"(1)[OF True] True show ?thesis by simp
    next
      case ne: False
      with False "1.prems" have "find (\<lambda>c. vma c = v) (y # zs) = Some e" by simp
      with "1.IH"(2)[OF ne] ne show ?thesis by simp
    qed
  qed
qed (auto split: if_splits)

lemma sized_find_conv:
  assumes "find (\<lambda>c. vma c = v) sy = Some c"
  shows "\<exists>e. find (\<lambda>c. vma c = v) (size_loop nr 0 sy) = Some e \<and>
             symbol e = symbol c \<and> vma e = vma c"
proof -
  from assms obtain i where i: "i < length sy" and p: "vma (sy ! i) = v"
    and c: "c = sy ! i" and m: "\<forall>j<i. vma (sy ! j) \<noteq> v"
    by (auto simp: find_Some_iff)
  have "find (\<lambda>c. vma c = v) (size_loop nr 0 sy) = Some (size_loop nr 0 sy ! i)"
    unfolding find_Some_iff
  proof (intro exI[of _ i] conjI allI impI)
    show "i < length (size_loop nr 0 sy)" using i by (simp add: size_loop_length)
    show "vma (size_loop nr 0 sy ! i) = v" using p i by (simp add: size_loop_0_nth)
    show "size_loop nr 0 sy ! i = size_loop nr 0 sy ! i" ..
    fix j assume "j < i"
    with m i show "vma (size_loop nr 0 sy ! j) \<noteq> v" by (simp add: size_loop_0_nth)
  qed
  moreover have "symbol (size_loop nr 0 sy ! i) = symbol c \<and> vma (size_loop nr 0 sy ! i) = vma c"
    using c i by (simp add: size_loop_0_nth)
  ultimately show ?thesis by blast
qed

lemma table_keeps_first:
  assumes "find (\<lambda>t. interesting_symbol t \<and>
                   sym_value t + sec_vma (sym_section t) = sym_value s + sec_vma (sym_section s))
             st = Some s"
  shows "\<exists>e \<in> set (drop_later (size_loop nr 0
                  (sort_key vma (map new_symb (filter interesting_symbol st))))).
           symbol e = s \<and> vma e = sym_value s + sec_vma (sym_section s)"
proof -
  let ?v = "sym_value s + sec_vma (sym_section s)"
  let ?cs = "map new_symb (filter interesting_symbol st)"
  have "find (\<lambda>c. vma c = ?v) ?cs = Some (new_symb s)"
    using assms by (simp add: find_map_comp find_filter_conj new_symb_def)
  then have "find (\<lambda>c. vma c = ?v) (sort_key vma ?cs) = Some (new_symb s)"
    by (simp add: find_sort_key)
  from sized_find_conv[OF this, of nr] obtain e where
    e: "find (\<lambda>c. vma c = ?v) (size_loop nr 0 (sort_key vma ?cs)) = Some e"
    and s: "symbol e = symbol (new_symb s)" "vma e = vma (new_symb s)"
    by blast
  from drop_later_keeps_first[OF e] s show ?thesis
    by (auto simp: new_symb_def)
qed

lemma size_loop_Nil: "size_loop nr 0 [] = []"
  by (simp add: size_loop.simps[of nr 0 "[]"])

lemma get_symbols_syms_exact:
  assumes "syms b = []" and "file_flags (ibfd b) AND HAS_SYMS \<noteq> 0"
    and "1 \<le> symtab_upper_bound (ibfd b)"
  shows "syms (snd (get_symbols excl b)) =
           filter (\<lambda>e. \<not> is_excluded_symbol excl (sym_name (symbol e)))
             (drop_later (size_loop (nr_samples b) 0
                (sort_key vma (map new_symb (filter interesting_symbol (symtab (ibfd b)))))))"
proof (cases "symtab (ibfd b) = []")
  case True
  from assms(3) have "symtab_upper_bound (ibfd b) \<noteq> 0" by auto
  with True assms(1,2) show ?thesis
    by (simp add: get_symbols_def size_loop_Nil)
next
  case False
  from assms(3) have "symtab_upper_bound (ibfd b) \<noteq> 0" by auto
  with False assms(1,2) show ?thesis
    by (simp add: get_symbols_def Let_def dedup_syms_def sized_syms_def sorted_syms_def
      stable_sort_def collect_loop_eq exclude_loop_eq not_less
      dedup_loop_eq[of 0, simplified])
qed

lemma ctor_table_exact:
  assumes "op_bfd_ctor openr fsize excl is_kernel fname = Inr b"
    and "file_flags (ibfd b) AND HAS_SYMS \<noteq> 0" and "1 \<le> symtab_upper_bound (ibfd b)"
  shows "syms b =
           filter (\<lambda>e. \<not> is_excluded_symbol excl (sym_name (symbol e)))
             (drop_later (size_loop (nr_samples b) 0
                (sort_key vma (map new_symb (filter interesting_symbol (symtab (ibfd b)))))))"
proof -
  from assms(1) obtain b1 where b: "b = snd (get_symbols excl b1)" and s: "syms b1 = []"
    by (auto simp: op_bfd_ctor_def open_bfd_image_def Let_def
        split: if_splits option.splits)
  note f = get_symbols_fields[of excl b1]
  from assms(2,3) b f have "file_flags (ibfd b1) AND HAS_SYMS \<noteq> 0"
    "1 \<le> symtab_upper_bound (ibfd b1)" by simp_all
  from get_symbols_syms_exact[OF s this, of excl] b f show ?thesis by simp
qed

lemma ctor_first_kept:
  assumes "op_bfd_ctor openr fsize excl is_kernel fname = Inr b"
    and "file_flags (ibfd b) AND HAS_SYMS \<noteq> 0" and "1 \<le> symtab_upper_bound (ibfd b)"
    and "find (\<lambda>t. interesting_symbol t \<and>
                   sym_value t + sec_vma (sym_section t) = sym_value s + sec_vma (sym_section s))
           (symtab (ibfd b)) = Some s"
    and "\<not> is_excluded_symbol excl (sym_name s)"
  shows "\<exists>e \<in> set (syms b). symbol e = s \<and> vma e = sym_value s + sec_vma (sym_section s)"
proof -
  from table_keeps_first[OF assms(4), of "nr_samples b"] obtain e where
    e: "e \<in> set (drop_later (size_loop (nr_samples b) 0
                  (sort_key vma (map new_symb (filter interesting_symbol (symtab (ibfd b)))))))"
    and s: "symbol e = s" "vma e = sym_value s + sec_vma (sym_section s)"
    by blast
  from e s(1) assms(5) have "e \<in> set (syms b)"
    unfolding ctor_table_exact[OF assms(1-3)] by simp
  with s show ?thesis by blast
qed

lemma ctor_entry_first:
  assumes "op_bfd_ctor openr fsize excl is_kernel fname = Inr b" and "e \<in> set (syms b)"
  shows "find (\<lambda>s. interesting_symbol s \<and> sym_value s + sec_vma (sym_section s) = vma e)
           (symtab (ibfd b)) = Some (symbol e)"
proof -
  from ctor_table[OF assms(1)] assms(2)
  have "e \<in> set (drop_later (size_loop (nr_samples b) 0
          (sort_key vma (map new_symb (filter interesting_symbol (symtab (ibfd b)))))))"
    by auto
  then show ?thesis by (rule table_first)
qed

text \<open>
  Claim C4. Of the symbols the filter keeps at one virtual address, the first in the
  order of the symbol table is the one the duplicate scan keeps: every entry of the
  table is that first symbol for the entry's address, and (when the image has symbols)
  every such first symbol that is not excluded is the symbol of an entry. The later
  symbols at the address are dropped: when a kept symbol follows another kept symbol at
  the same address and no other kept symbol bears its name, \<open>symbol_index\<close> of that name
  is \<open>nil_symbol_index\<close>. In general \<open>symbol_index\<close> is \<open>nil_symbol_index\<close> exactly for the
  names no entry bears, and otherwise the index of the first entry of that name.
\<close>

theorem dedup_keeps_first:
  assumes "op_bfd_ctor openr fsize excl is_kernel fname = Inr b"
  shows
   "(\<forall>e \<in> set (syms b).
       find (\<lambda>s. interesting_symbol s \<and> sym_value s + sec_vma (sym_section s) = vma e)
         (symtab (ibfd b)) = Some (symbol e)) \<and>
    (\<forall>s. file_flags (ibfd b) AND HAS_SYMS \<noteq> 0 \<and> 1 \<le> symtab_upper_bound (ibfd b) \<and>
       find (\<lambda>t. interesting_symbol t \<and>
               sym_value t + sec_vma (sym_section t) = sym_value s + sec_vma (sym_section s))
         (symtab (ibfd b)) = Some s \<and>
       \<not> is_excluded_symbol excl (sym_name s)
       \<longrightarrow> (\<exists>e \<in> set (syms b). symbol e = s \<and>
                                  vma e = sym_value s + sec_vma (sym_section s))) \<and>
    (\<forall>j k nm. j < k \<and> k < length (symtab (ibfd b)) \<and>
       interesting_symbol (symtab (ibfd b) ! j) \<and>
       sym_value (symtab (ibfd b) ! j) + sec_vma (sym_section (symtab (ibfd b) ! j)) =
         sym_value (symtab (ibfd b) ! k) + sec_vma (sym_section (symtab (ibfd b) ! k)) \<and>
       sym_name (symtab (ibfd b) ! k) = Some nm \<and>
       (\<forall>m<length (symtab (ibfd b)). m \<noteq> k \<and> interesting_symbol (symtab (ibfd b) ! m)
            \<longrightarrow> sym_name (symtab (ibfd b) ! m) \<noteq> Some nm)
       \<longrightarrow> symbol_index b nm = None) \<and>
    (\<forall>nm. symbol_index b nm = None \<longleftrightarrow>
       (\<forall>e \<in> set (syms b). sym_name (symbol e) \<noteq> Some nm)) \<and>
    (\<forall>nm i. symbol_index b nm = Some i \<longleftrightarrow>
       i < length (syms b) \<and> sym_name (symbol (syms b ! i)) = Some nm \<and>
       (\<forall>j<i. sym_name (symbol (syms b ! j)) \<noteq> Some nm))"
proof (intro conjI allI impI ballI)
  fix e assume "e \<in> set (syms b)"
  with assms show "find (\<lambda>s. interesting_symbol s \<and>
      sym_value s + sec_vma (sym_section s) = vma e) (symtab (ibfd b)) = Some (symbol e)"
    by (rule ctor_entry_first)
next
  fix s
  assume "file_flags (ibfd b) AND HAS_SYMS \<noteq> 0 \<and> 1 \<le> symtab_upper_bound (ibfd b) \<and>
       find (\<lambda>t. interesting_symbol t \<and>
               sym_value t + sec_vma (sym_section t) = sym_value s + sec_vma (sym_section s))
         (symtab (ibfd b)) = Some s \<and>
       \<not> is_excluded_symbol excl (sym_name s)"
  then show "\<exists>e \<in> set (syms b). symbol e = s \<and>
                 vma e = sym_value s + sec_vma (sym_section s)"
    using ctor_first_kept[OF assms, of s] by blast
next
  fix j k nm
  let ?st = "symtab (ibfd b)"
  assume h: "j < k \<and> k < length ?st \<and> interesting_symbol (?st ! j) \<and>
       sym_value (?st ! j) + sec_vma (sym_section (?st ! j)) =
         sym_value (?st ! k) + sec_vma (sym_section (?st ! k)) \<and>
       sym_name (?st ! k) = Some nm \<and>
       (\<forall>m<length ?st. m \<noteq> k \<and> interesting_symbol (?st ! m)
            \<longrightarrow> sym_name (?st ! m) \<noteq> Some nm)"
  show "symbol_index b nm = None"
  proof (rule ccontr)
    assume "symbol_index b nm \<noteq> None"
    then obtain e where e: "e \<in> set (syms b)" and n: "sym_name (symbol e) = Some nm"
      by (auto simp: symbol_index_None)
    from ctor_entry_first[OF assms e] obtain i where i: "i < length ?st"
      and p: "interesting_symbol (?st ! i)"
             "sym_value (?st ! i) + sec_vma (sym_section (?st ! i)) = vma e"
      and s: "symbol e = ?st ! i"
      and m: "\<forall>j<i. \<not> (interesting_symbol (?st ! j) \<and>
                sym_value (?st ! j) + sec_vma (sym_section (?st ! j)) = vma e)"
      by (auto simp: find_Some_iff)
    from h i p(1) n s have "i = k" by metis
    with h p(2) m show False by metis
  qed
qed (simp_all add: symbol_index_None symbol_index_Some)

lemma ex_built_symtab: "symtab (ibfd ex_built) = ex_symtab"
  unfolding ex_built_def by code_simp

lemma ex_built_has_syms:
  "file_flags (ibfd ex_built) AND HAS_SYMS \<noteq> 0 \<and> 1 \<le> symtab_upper_bound (ibfd ex_built)"
  unfolding ex_built_def by code_simp

theorem dedup_keeps_first_witness:
  "ex_open ex_symtab [ex_text, ex_data] [] False = Inr ex_built \<and>
   map (\<lambda>e. sym_name (symbol e)) (syms ex_built) = [Some ''main'', Some ''helper'', Some ''tail''] \<and>
   (\<exists>e \<in> set (syms ex_built). symbol e = ex_sym ''main'' 0x10 ex_text \<and> vma e = 0x1010) \<and>
   (\<exists>e \<in> set (syms ex_built). symbol e = ex_sym ''helper'' 0x20 ex_text \<and> vma e = 0x1020) \<and>
   symbol_index ex_built ''alias'' = None \<and>
   symbol_index ex_built ''helper2'' = None \<and>
   symbol_index ex_built ''helper'' = Some 1"
proof -
  note t = dedup_keeps_first [OF ex_built_ok [unfolded ex_open_def]]
  have fm: "find (\<lambda>t. interesting_symbol t \<and>
               sym_value t + sec_vma (sym_section t) =
                 sym_value (ex_sym ''main'' 0x10 ex_text)
                   + sec_vma (sym_section (ex_sym ''main'' 0x10 ex_text)))
         ex_symtab = Some (ex_sym ''main'' 0x10 ex_text)"
    by (simp add: ex_symtab_def ex_sym_def ex_text_def ex_data_def interesting_symbol_def
        SEC_CODE_def boring_symbols_def)
  have fh: "find (\<lambda>t. interesting_symbol t \<and>
               sym_value t + sec_vma (sym_section t) =
                 sym_value (ex_sym ''helper'' 0x20 ex_text)
                   + sec_vma (sym_section (ex_sym ''helper'' 0x20 ex_text)))
         ex_symtab = Some (ex_sym ''helper'' 0x20 ex_text)"
    by (simp add: ex_symtab_def ex_sym_def ex_text_def ex_data_def interesting_symbol_def
        SEC_CODE_def boring_symbols_def)
  have nx: "\<not> is_excluded_symbol [] nm" for nm
    by (simp add: is_excluded_symbol_def split: option.splits)
  have av: "sym_value (ex_sym ''main'' 0x10 ex_text)
              + sec_vma (sym_section (ex_sym ''main'' 0x10 ex_text)) = 0x1010"
    "sym_value (ex_sym ''helper'' 0x20 ex_text)
              + sec_vma (sym_section (ex_sym ''helper'' 0x20 ex_text)) = 0x1020"
    by (simp_all add: ex_sym_def ex_text_def)
  from t[THEN conjunct2, THEN conjunct1, rule_format, of "ex_sym ''main'' 0x10 ex_text"]
    ex_built_has_syms fm nx
  have km: "\<exists>e \<in> set (syms ex_built). symbol e = ex_sym ''main'' 0x10 ex_text \<and> vma e = 0x1010"
    unfolding ex_built_symtab av by blast
  from t[THEN conjunct2, THEN conjunct1, rule_format, of "ex_sym ''helper'' 0x20 ex_text"]
    ex_built_has_syms fh nx
  have kh: "\<exists>e \<in> set (syms ex_built). symbol e = ex_sym ''helper'' 0x20 ex_text \<and> vma e = 0x1020"
    unfolding ex_built_symtab av by blast
  have h: "(1::nat) < 3 \<and> 3 < length ex_symtab \<and> interesting_symbol (ex_symtab ! 1) \<and>
       sym_value (ex_symtab ! 1) + sec_vma (sym_section (ex_symtab ! 1)) =
         sym_value (ex_symtab ! 3) + sec_vma (sym_section (ex_symtab ! 3)) \<and>
       sym_name (ex_symtab ! 3) = Some ''alias'' \<and>
       (\<forall>m<length ex_symtab. m \<noteq> 3 \<and> interesting_symbol (ex_symtab ! m)
            \<longrightarrow> sym_name (ex_symtab ! m) \<noteq> Some ''alias'')"
    by (simp add: ex_symtab_def ex_sym_def ex_text_def ex_data_def interesting_symbol_def
        SEC_CODE_def boring_symbols_def All_less_Suc)
  from t h have a: "symbol_index ex_built ''alias'' = None"
    unfolding ex_built_symtab by blast
  have h2: "(0::nat) < 6 \<and> 6 < length ex_symtab \<and> interesting_symbol (ex_symtab ! 0) \<and>
       sym_value (ex_symtab ! 0) + sec_vma (sym_section (ex_symtab ! 0)) =
         sym_value (ex_symtab ! 6) + sec_vma (sym_section (ex_symtab ! 6)) \<and>
       sym_name (ex_symtab ! 6) = Some ''helper2'' \<and>
       (\<forall>m<length ex_symtab. m \<noteq> 6 \<and> interesting_symbol (ex_symtab ! m)
            \<longrightarrow> sym_name (ex_symtab ! m) \<noteq> Some ''helper2'')"
    by (simp add: ex_symtab_def ex_sym_def ex_text_def ex_data_def interesting_symbol_def
        SEC_CODE_def boring_symbols_def All_less_Suc)
  from t h2 have a2: "symbol_index ex_built ''helper2'' = None"
    unfolding ex_built_symtab by blast
  have n: "map (\<lambda>e. sym_name (symbol e)) (syms ex_built) = [Some ''main'', Some ''helper'', Some ''tail'']"
    by (rule ex_built_names)
  then have l: "length (syms ex_built) = 3"
    by (metis length_map length_Cons list.size(3) numeral_3_eq_3)
  have n0: "sym_name (symbol (syms ex_built ! 0)) = Some ''main''"
   and n1: "sym_name (symbol (syms ex_built ! 1)) = Some ''helper''"
    using arg_cong[OF n, of "\<lambda>xs. xs ! 0"] arg_cong[OF n, of "\<lambda>xs. xs ! 1"] l by simp_all
  from t have "symbol_index ex_built ''helper'' = Some 1 \<longleftrightarrow>
       1 < length (syms ex_built) \<and> sym_name (symbol (syms ex_built ! 1)) = Some ''helper'' \<and>
       (\<forall>j<1. sym_name (symbol (syms ex_built ! j)) \<noteq> Some ''helper'')"
    by blast
  with l n0 n1 have b: "symbol_index ex_built ''helper'' = Some 1" by simp
  from ex_built_ok n km kh a a2 b show ?thesis by blast
qed

section \<open>Contiguity of the spans\<close>

lemma ex_plain_built_ok: "ex_open ex_plain [ex_text] [] False = Inr ex_plain_built"
  unfolding ex_plain_built_def by code_simp

lemma ex_plain_built_symtab: "symtab (ibfd ex_plain_built) = ex_plain"
  unfolding ex_plain_built_def by code_simp

lemma ex_plain_built_spans:
  "map (\<lambda>e. (range_start e, range_end e)) (syms ex_plain_built) =
     [(0x110, 0x120), (0x120, 0x130), (0x130, 0x1000)]"
  unfolding ex_plain_built_def by code_simp

lemma ex_excl_built_ok: "ex_open ex_plain [ex_text] [''helper''] False = Inr ex_excl_built"
  unfolding ex_excl_built_def by code_simp

lemma ex_excl_built_spans:
  "map (\<lambda>e. (sym_name (symbol e), range_start e, range_end e)) (syms ex_excl_built) =
     [(Some ''main'', 0x110, 0x120), (Some ''tail'', 0x130, 0x1000)]"
  unfolding ex_excl_built_def by code_simp

text \<open>
  The sizes are filled in before the duplicate scan: in the table built from
  \<open>ex_symtab\<close>, \<open>main\<close> keeps the size 0 it got from \<open>alias\<close> at the same address.
\<close>

lemma ex_built_spans:
  "map (\<lambda>e. (sym_name (symbol e), range_start e, range_end e)) (syms ex_built) =
     [(Some ''main'', 0x110, 0x110), (Some ''helper'', 0x120, 0x120),
      (Some ''tail'', 0x130, 0x1000)]"
  unfolding ex_built_def by code_simp

lemma sorted_candidates_distinct:
  assumes "distinct (map (\<lambda>s. sym_value s + sec_vma (sym_section s))
             (filter interesting_symbol st))"
  shows "distinct (map vma (size_loop nr 0
            (sort_key vma (map new_symb (filter interesting_symbol st)))))"
proof -
  have "map vma (map new_symb (filter interesting_symbol st)) =
        map (\<lambda>s. sym_value s + sec_vma (sym_section s)) (filter interesting_symbol st)"
    by (simp add: new_symb_def)
  with assms have d: "distinct (map vma (map new_symb (filter interesting_symbol st)))"
    by (simp only:)
  have "distinct (map vma (sort_key vma cs))" if "distinct (map vma cs)"
    for cs :: "op_bfd_symbol list"
    using that by (simp add: distinct_map)
  from this[OF d] show ?thesis by (simp add: size_loop_map_vma)
qed

text \<open>
  Claim C1, amended. The sizes are computed on the sorted sequence, before the
  duplicate scan and before the exclusion. When no two symbols kept by the filter have
  the same virtual address and none of them is excluded, the spans of the table are
  contiguous in 32-bit arithmetic: the end of each entry is the start of the next, and
  the end of the last entry is \<open>nr_samples\<close>, the file size as an \<open>unsigned int\<close>.
\<close>

theorem spans_contiguous:
  assumes "op_bfd_ctor openr fsize excl is_kernel fname = Inr b"
    and "distinct (map (\<lambda>s. sym_value s + sec_vma (sym_section s))
           (filter interesting_symbol (symtab (ibfd b))))"
    and "\<forall>s \<in> set (symtab (ibfd b)).
           interesting_symbol s \<longrightarrow> \<not> is_excluded_symbol excl (sym_name s)"
  shows "(\<forall>i. Suc i < length (syms b) \<longrightarrow>
            range_end (syms b ! i) = range_start (syms b ! Suc i)) \<and>
         (syms b \<noteq> [] \<longrightarrow> range_end (last (syms b)) = nr_samples b) \<and>
         nr_samples b = ucast (fsize fname)"
proof -
  let ?sorted = "sort_key vma (map new_symb (filter interesting_symbol (symtab (ibfd b))))"
  let ?sized = "size_loop (nr_samples b) 0 ?sorted"
  have dl: "drop_later ?sized = ?sized"
    using assms(2) by (intro drop_later_id sorted_candidates_distinct)
  have "\<not> is_excluded_symbol excl (sym_name (symbol e))" if "e \<in> set (drop_later ?sized)" for e
    using table_member[OF that] assms(3) by blast
  then have "filter (\<lambda>e. \<not> is_excluded_symbol excl (sym_name (symbol e))) (drop_later ?sized)
               = drop_later ?sized"
    by (simp add: filter_id_conv)
  then have f: "filter (\<lambda>e. \<not> is_excluded_symbol excl (sym_name (symbol e))) (drop_later ?sized)
               = ?sized"
    by (simp only: dl)
  from ctor_table[OF assms(1)] have n: "nr_samples b = ucast (fsize fname)" by blast
  note ct = ctor_table[OF assms(1), THEN conjunct2]
  have t: "syms b = [] \<or> syms b = ?sized"
    using ct unfolding f .
  from t show ?thesis
  proof
    assume "syms b = []"
    with n show ?thesis by simp
  next
    assume s: "syms b = ?sized"
    have "range_end (syms b ! i) = range_start (syms b ! Suc i)" if "Suc i < length (syms b)" for i
      using that unfolding s by (simp add: size_loop_contiguous size_loop_length)
    moreover have "range_end (last (syms b)) = nr_samples b" if "syms b \<noteq> []"
    proof -
      from that s have "?sorted \<noteq> []"
        by (metis size_loop_length length_0_conv)
      then show ?thesis unfolding s by (rule size_loop_last)
    qed
    ultimately show ?thesis using n by blast
  qed
qed

theorem spans_contiguous_witness:
  "ex_open ex_plain [ex_text] [] False = Inr ex_plain_built \<and>
   map (\<lambda>e. (range_start e, range_end e)) (syms ex_plain_built) =
     [(0x110, 0x120), (0x120, 0x130), (0x130, 0x1000)] \<and>
   range_end (syms ex_plain_built ! 0) = range_start (syms ex_plain_built ! 1) \<and>
   range_end (syms ex_plain_built ! 1) = range_start (syms ex_plain_built ! 2) \<and>
   range_end (last (syms ex_plain_built)) = nr_samples ex_plain_built \<and>
   nr_samples ex_plain_built = 0x1000"
proof -
  have d: "distinct (map (\<lambda>s. sym_value s + sec_vma (sym_section s))
           (filter interesting_symbol (symtab (ibfd ex_plain_built))))"
    unfolding ex_plain_built_symtab
    by (simp add: ex_plain_def ex_sym_def ex_text_def interesting_symbol_def SEC_CODE_def
        boring_symbols_def)
  have x: "\<forall>s \<in> set (symtab (ibfd ex_plain_built)).
           interesting_symbol s \<longrightarrow> \<not> is_excluded_symbol [] (sym_name s)"
    by (simp add: is_excluded_symbol_def split: option.splits)
  note t = spans_contiguous [OF ex_plain_built_ok [unfolded ex_open_def] d x]
  have l: "length (syms ex_plain_built) = 3"
    using arg_cong[OF ex_plain_built_spans, of length] by simp
  then have ne: "syms ex_plain_built \<noteq> []" by auto
  have c0: "range_end (syms ex_plain_built ! 0) = range_start (syms ex_plain_built ! Suc 0)"
    by (rule t[THEN conjunct1, rule_format]) (simp add: l)
  have c1: "range_end (syms ex_plain_built ! Suc 0) = range_start (syms ex_plain_built ! Suc (Suc 0))"
    by (rule t[THEN conjunct1, rule_format]) (simp add: l)
  have c2: "range_end (last (syms ex_plain_built)) = nr_samples ex_plain_built"
    by (rule t[THEN conjunct2, THEN conjunct1, rule_format]) (rule ne)
  have c3: "nr_samples ex_plain_built = 0x1000"
    using t[THEN conjunct2, THEN conjunct2] by simp
  have "range_end (syms ex_plain_built ! 0) = range_start (syms ex_plain_built ! 1)"
    "range_end (syms ex_plain_built ! 1) = range_start (syms ex_plain_built ! 2)"
    using c0 c1 by (simp_all add: numeral_2_eq_2)
  with c2 c3 ex_plain_built_ok ex_plain_built_spans show ?thesis by blast
qed

theorem spans_contiguous_counterexample:
  "ex_open ex_plain [ex_text] [''helper''] False = Inr ex_excl_built \<and>
   map (\<lambda>e. (sym_name (symbol e), range_start e, range_end e)) (syms ex_excl_built) =
     [(Some ''main'', 0x110, 0x120), (Some ''tail'', 0x130, 0x1000)] \<and>
   range_end (syms ex_excl_built ! 0) \<noteq> range_start (syms ex_excl_built ! 1)"
proof -
  have "range_end (syms ex_excl_built ! 0) = 0x120" "range_start (syms ex_excl_built ! 1) = 0x130"
    using arg_cong[OF ex_excl_built_spans, of "\<lambda>xs. snd (snd (xs ! 0))"]
      arg_cong[OF ex_excl_built_spans, of "\<lambda>xs. fst (snd (xs ! 1))"]
      arg_cong[OF ex_excl_built_spans, of length]
    by simp_all
  then have "range_end (syms ex_excl_built ! 0) \<noteq> range_start (syms ex_excl_built ! 1)"
    by simp
  with ex_excl_built_ok ex_excl_built_spans show ?thesis by blast
qed

section \<open>The range of a symbol\<close>

text \<open>
  Claim C5, amended. With \<open>start\<close> the section's file position plus the symbol's value,
  \<open>end\<close> that plus the size (both in 32-bit arithmetic) and the limit
  \<open>nr_samples + sect_offset\<close> (a 32-bit sum), \<open>get_symbol_range\<close> exits exactly when
  \<open>start\<close> is at or above the limit, or \<open>end\<close> is above the limit, or \<open>start\<close> is above
  \<open>end\<close>; otherwise it gives \<open>(start, end)\<close>. The limit is exclusive for \<open>start\<close> and
  inclusive for \<open>end\<close>.
\<close>

theorem get_symbol_range_exact:
  "((\<exists>e. get_symbol_range b i = Inl e) \<longleftrightarrow>
      nr_samples b + sect_offset b \<le> range_start (syms b ! i) \<or>
      nr_samples b + sect_offset b < range_end (syms b ! i) \<or>
      range_end (syms b ! i) < range_start (syms b ! i)) \<and>
   (get_symbol_range b i = Inr p \<longleftrightarrow>
      p = (range_start (syms b ! i), range_end (syms b ! i)) \<and>
      range_start (syms b ! i) < nr_samples b + sect_offset b \<and>
      range_end (syms b ! i) \<le> nr_samples b + sect_offset b \<and>
      range_start (syms b ! i) \<le> range_end (syms b ! i)) \<and>
   range_start (syms b ! i) =
      ucast (sec_filepos (sym_section (symbol (syms b ! i))) + sym_value (symbol (syms b ! i))) \<and>
   range_end (syms b ! i) = range_start (syms b ! i) + ucast (symb_size (syms b ! i))"
  by (auto simp: get_symbol_range_def Let_def range_start_eq sym_start_def range_end_eq)

theorem get_symbol_range_exact_witness:
  "get_symbol_range ex_plain_built 2 = Inr (0x130, 0x1000) \<and>
   get_symbol_range (ex_plain_built\<lparr>nr_samples := 0xFFF\<rparr>) 2 = Inl Exit_end_out_of_range \<and>
   get_symbol_range (ex_plain_built\<lparr>nr_samples := 0x131\<rparr>) 1 = Inr (0x120, 0x130) \<and>
   get_symbol_range (ex_plain_built\<lparr>nr_samples := 0x130\<rparr>) 2 = Inl Exit_start_out_of_range \<and>
   range_start (syms ex_plain_built ! 2) < nr_samples ex_plain_built + sect_offset ex_plain_built"
proof -
  have a: "get_symbol_range ex_plain_built 2 = Inr (0x130, 0x1000)"
    unfolding ex_plain_built_def by code_simp
  have b: "get_symbol_range (ex_plain_built\<lparr>nr_samples := 0xFFF\<rparr>) 2 = Inl Exit_end_out_of_range"
    unfolding ex_plain_built_def by code_simp
  have c: "get_symbol_range (ex_plain_built\<lparr>nr_samples := 0x131\<rparr>) 1 = Inr (0x120, 0x130)"
    unfolding ex_plain_built_def by code_simp
  have d: "get_symbol_range (ex_plain_built\<lparr>nr_samples := 0x130\<rparr>) 2 = Inl Exit_start_out_of_range"
    unfolding ex_plain_built_def by code_simp
  from get_symbol_range_exact [of ex_plain_built 2 "(0x130, 0x1000)"] a
  have "range_start (syms ex_plain_built ! 2) < nr_samples ex_plain_built + sect_offset ex_plain_built"
    by blast
  with a b c d show ?thesis by blast
qed

theorem get_symbol_range_counterexample:
  "ex_open ex_plain [ex_text] [] False = Inr ex_plain_built \<and>
   nr_samples ex_plain_built + sect_offset ex_plain_built = 0x1000 \<and>
   get_symbol_range ex_plain_built 2 = Inr (0x130, 0x1000)"
proof -
  have "nr_samples ex_plain_built + sect_offset ex_plain_built = 0x1000"
    unfolding ex_plain_built_def by code_simp
  moreover have "get_symbol_range ex_plain_built 2 = Inr (0x130, 0x1000)"
    unfolding ex_plain_built_def by code_simp
  ultimately show ?thesis using ex_plain_built_ok by blast
qed

section \<open>Kernel images\<close>

lemma open_bfd_image_sect_offset:
  assumes "open_bfd_image openr excl fname is_kernel b0 = Inr b"
  shows "if is_kernel
         then \<exists>abfd sect. openr fname = Some abfd \<and>
                bfd_get_section_by_name abfd ''.text'' = Some sect \<and>
                sect_offset b = ucast (sec_filepos sect)
         else sect_offset b = sect_offset b0"
  using assms
  by (auto simp: open_bfd_image_def Let_def get_symbols_fields
      split: option.splits if_splits)

text \<open>
  Claim C8. A kernel image without a section named \<open>.text\<close>: \<open>open_bfd_image\<close> reads
  \<open>sect->filepos\<close> through the null pointer \<open>bfd_get_section_by_name\<close> returned. The
  source has no test and no exit of its own there.
\<close>

theorem open_kernel_without_text:
  "bfd_get_section_by_name (ex_bfd ex_plain [ex_data]) ''.text'' = None \<and>
   ex_open ex_plain [ex_data] [] True = Inl Null_dereference \<and>
   map_sum id sect_offset (ex_open ex_plain [ex_text, ex_data] [] True) = Inr 0x100 \<and>
   map_sum id sect_offset (ex_open ex_plain [ex_text, ex_data] [] False) = Inr 0"
proof -
  have a: "bfd_get_section_by_name (ex_bfd ex_plain [ex_data]) ''.text'' = None" by code_simp
  have b: "ex_open ex_plain [ex_data] [] True = Inl Null_dereference" by code_simp
  have c: "map_sum id sect_offset (ex_open ex_plain [ex_text, ex_data] [] True) = Inr 0x100"
    by code_simp
  have d: "map_sum id sect_offset (ex_open ex_plain [ex_text, ex_data] [] False) = Inr 0"
    by code_simp
  from a b c d show ?thesis by blast
qed

section \<open>Results of the line lookup\<close>

lemma ex_other: "get_linenr fnl_other ex_plain_built 0 0x110 None =
     Inr \<lparr>ret = False,
          vars = \<lparr>filename = Some ''a.c'', functionname = Some ''other'', linenr = 42\<rparr>,
          calls = [0x10]\<rparr>"
  unfolding ex_plain_built_def by code_simp

lemma ex_beyond: "get_linenr fnl_other ex_plain_built 0 0x510 None =
     Inr \<lparr>ret = False,
          vars = \<lparr>filename = None, functionname = None, linenr = 0\<rparr>,
          calls = []\<rparr>"
  unfolding ex_plain_built_def by code_simp

lemma ex_nofunc: "get_linenr fnl_nofunc ex_plain_built 0 0x110 None =
     Inr \<lparr>ret = True,
          vars = \<lparr>filename = Some ''a.c'', functionname = None, linenr = 42\<rparr>,
          calls = [0x10]\<rparr>"
  unfolding ex_plain_built_def by code_simp

lemma ex_prologue: "get_linenr fnl_prologue ex_plain_built 0 0x110 None = Inl Null_dereference"
  unfolding ex_plain_built_def by code_simp


lemma get_pc_eq:
  "get_pc b i off =
     ucast (off - ucast (sec_filepos (sym_section (symbol (syms b ! i))))
                - ucast (sym_value (symbol (syms b ! i))))
     + sym_value (symbol (syms b ! i))"
  by (simp add: get_pc_def sym_offset_eq)

text \<open>
  Claim C9, amended. At the two immediate rejections (the section lacks \<open>SEC_ALLOC\<close>, or
  the address \<open>pc\<close> is at or beyond the section's size) \<open>get_linenr\<close> returns false with
  line number 0 and a null \<open>filename\<close>, not the empty string, and makes no lookup.
\<close>

theorem get_linenr_rejected:
  assumes "sec_flags (sym_section (symbol (syms b ! i))) AND SEC_ALLOC = 0 \<or>
           sec_size (sym_section (symbol (syms b ! i))) \<le> get_pc b i off"
  shows "get_linenr fnl b i off fn0 =
           Inr \<lparr>ret = False,
                vars = \<lparr>filename = None, functionname = fn0, linenr = 0\<rparr>,
                calls = []\<rparr>"
  using assms by (auto simp: get_linenr_def Let_def)

theorem get_linenr_rejected_witness:
  "sec_size (sym_section (symbol (syms ex_plain_built ! 0))) \<le> get_pc ex_plain_built 0 0x510 \<and>
   get_linenr fnl_other ex_plain_built 0 0x510 None =
     Inr \<lparr>ret = False,
          vars = \<lparr>filename = None, functionname = None, linenr = 0\<rparr>,
          calls = []\<rparr>"
proof -
  have h: "sec_size (sym_section (symbol (syms ex_plain_built ! 0))) \<le> get_pc ex_plain_built 0 0x510"
    unfolding ex_plain_built_def by code_simp
  from h get_linenr_rejected [of ex_plain_built 0 "0x510" fnl_other None]
  show ?thesis by blast
qed

theorem get_linenr_failure_counterexample:
  "get_linenr fnl_other ex_plain_built 0 0x110 None =
     Inr \<lparr>ret = False,
          vars = \<lparr>filename = Some ''a.c'', functionname = Some ''other'', linenr = 42\<rparr>,
          calls = [0x10]\<rparr> \<and>
   get_linenr fnl_other ex_plain_built 0 0x510 None =
     Inr \<lparr>ret = False,
          vars = \<lparr>filename = None, functionname = None, linenr = 0\<rparr>,
          calls = []\<rparr>"
  using ex_other ex_beyond by blast

lemma probe_loop_win:
  assumes "probe_loop fnl sect (Some nm) pc m i v cs = Inr w" and "ret w"
  shows "functionname (vars w) = Some nm \<and> linenr (vars w) \<noteq> 0"
  using assms
proof (induction fnl sect "Some nm" pc m i v cs rule: probe_loop.induct)
  case (1 fnl sect pc m i v cs)
  show ?case
  proof (cases "i < m")
    case False
    with "1.prems" show ?thesis
      by (auto simp: probe_loop.simps[of fnl sect "Some nm" pc m i v cs])
  next
    case True
    obtain r v' where f: "fnl sect (pc + i) v = (r, v')" by (cases "fnl sect (pc + i) v")
    show ?thesis
    proof (cases "r \<and> linenr v' \<noteq> 0")
      case False
      with True f "1.prems" "1.hyps"(2)[OF True refl refl] show ?thesis
        by (simp add: probe_loop.simps[of fnl sect "Some nm" pc m i v cs])
    next
      case hit: True
      show ?thesis
      proof (cases "functionname v'")
        case None
        with True f hit "1.prems" show ?thesis
          by (simp add: probe_loop.simps[of fnl sect "Some nm" pc m i v cs] strcmp_differs_def)
      next
        case (Some g)
        show ?thesis
        proof (cases "g = nm")
          case eq: True
          with True f hit Some "1.prems" show ?thesis
            by (auto simp: probe_loop.simps[of fnl sect "Some nm" pc m i v cs] strcmp_differs_def)
        next
          case ne: False
          have sd: "strcmp_differs (functionname (snd (fnl sect (pc + i) v))) (Some nm) = Inr True"
            using f Some ne by (simp add: strcmp_differs_def)
          from True f hit sd "1.prems" "1.hyps"(1)[OF True refl refl _ sd] show ?thesis
            by (simp add: probe_loop.simps[of fnl sect "Some nm" pc m i v cs])
        qed
      qed
    qed
  qed
qed


lemma first_lookup_eq:
  assumes "sym_name (symbol (syms b ! i)) = Some nm"
    and "fnl (sym_section (symbol (syms b ! i))) (get_pc b i off)
           \<lparr>filename = None, functionname = fn0, linenr = 0\<rparr> = (r, v)"
  shows "first_lookup fnl b i off fn0 =
           Inr (if filename v = None \<or> \<not> r
                then (False, v\<lparr>filename := Some [], linenr := 0\<rparr>)
                else if \<exists>f. functionname v = Some f \<and> f \<noteq> nm then (False, v)
                else (True, v))"
  using assms
  by (auto simp: first_lookup_def Let_def strcmp_differs_def split: option.splits)

text \<open>
  Claim C6, amended. Let the first lookup return the flag \<open>r\<close> and leave the variables
  \<open>v\<close>. If it succeeds with a file name, a line number other than 0 and a function name
  that differs from the symbol's name, \<open>get_linenr\<close> returns false. Whenever
  \<open>get_linenr\<close> returns true, either the first lookup succeeded with a file name and a
  function name that is null or equal to the symbol's name, or the forward scan stopped
  at a probe whose function name equals the symbol's name and whose line number is not
  0. A null function name at the first lookup is accepted.
\<close>

theorem function_name_guard:
  assumes "sym_name (symbol (syms b ! i)) = Some nm"
    and "fnl (sym_section (symbol (syms b ! i))) (get_pc b i off)
           \<lparr>filename = None, functionname = fn0, linenr = 0\<rparr> = (r, v)"
  shows "(r \<and> filename v \<noteq> None \<and> linenr v \<noteq> 0 \<and> (\<exists>f. functionname v = Some f \<and> f \<noteq> nm)
            \<longrightarrow> (\<exists>res. get_linenr fnl b i off fn0 = Inr res \<and> \<not> ret res)) \<and>
         (\<forall>res. get_linenr fnl b i off fn0 = Inr res \<and> ret res \<longrightarrow>
            r \<and> filename v \<noteq> None \<and> (functionname v = None \<or> functionname v = Some nm) \<or>
            functionname (vars res) = Some nm \<and> linenr (vars res) \<noteq> 0)"
proof (intro conjI allI impI)
  note fle = first_lookup_eq[of b i nm fnl off fn0 r v, OF assms]
  assume h: "r \<and> filename v \<noteq> None \<and> linenr v \<noteq> 0 \<and> (\<exists>f. functionname v = Some f \<and> f \<noteq> nm)"
  then have "first_lookup fnl b i off fn0 = Inr (False, v)"
    by (auto simp: fle)
  with h show "\<exists>res. get_linenr fnl b i off fn0 = Inr res \<and> \<not> ret res"
    by (simp add: get_linenr_def Let_def)
next
  fix res
  assume g: "get_linenr fnl b i off fn0 = Inr res \<and> ret res"
  let ?A = "r \<and> filename v \<noteq> None \<and> (functionname v = None \<or> functionname v = Some nm)"
  define rv where "rv = (if filename v = None \<or> \<not> r
                then (False, v\<lparr>filename := Some [], linenr := 0\<rparr>)
                else if \<exists>f. functionname v = Some f \<and> f \<noteq> nm then (False, v)
                else (True, v))"
  have fl: "first_lookup fnl b i off fn0 = Inr rv"
    unfolding rv_def by (rule first_lookup_eq[of b i nm fnl off fn0 r v, OF assms])
  have r1: "fst rv \<longrightarrow> ?A"
    by (cases "functionname v") (auto simp: rv_def)
  show "?A \<or> functionname (vars res) = Some nm \<and> linenr (vars res) \<noteq> 0"
  proof (cases "linenr (snd rv) = 0")
    case False
    with g fl r1 show ?thesis
      by (auto simp: get_linenr_def Let_def split: if_splits)
  next
    case True
    let ?sect = "sym_section (symbol (syms b ! i))"
    let ?pc = "get_pc b i off"
    let ?m = "if ?pc + 16 > sec_size ?sect then sec_size ?sect - ?pc else 16"
    from g have nr: "sec_flags ?sect AND SEC_ALLOC \<noteq> 0" "\<not> sec_size ?sect \<le> ?pc"
      by (auto simp: get_linenr_def Let_def split: if_splits)
    show ?thesis
    proof (cases "probe_loop fnl ?sect (Some nm) ?pc ?m 1 (snd rv) [?pc]")
      case (Inl e)
      with g fl True nr assms(1) show ?thesis
        by (simp add: get_linenr_def Let_def)
    next
      case (Inr w)
      show ?thesis
      proof (cases "ret w")
        case win: True
        with g fl True nr assms(1) Inr have "res = w"
          by (simp add: get_linenr_def Let_def)
        with probe_loop_win[OF Inr win] show ?thesis by simp
      next
        case lose: False
        with g fl True nr assms(1) Inr have "fst rv"
          by (auto simp: get_linenr_def Let_def)
        with r1 show ?thesis by simp
      qed
    qed
  qed
qed

theorem function_name_guard_witness:
  "get_linenr fnl_other ex_plain_built 0 0x110 None =
     Inr \<lparr>ret = False,
          vars = \<lparr>filename = Some ''a.c'', functionname = Some ''other'', linenr = 42\<rparr>,
          calls = [0x10]\<rparr> \<and>
   (\<exists>res. get_linenr fnl_other ex_plain_built 0 0x110 None = Inr res \<and> \<not> ret res)"
proof -
  have n: "sym_name (symbol (syms ex_plain_built ! 0)) = Some ''main''"
    unfolding ex_plain_built_def by code_simp
  have f: "fnl_other (sym_section (symbol (syms ex_plain_built ! 0))) (get_pc ex_plain_built 0 0x110)
           \<lparr>filename = None, functionname = None, linenr = 0\<rparr> =
         (True, \<lparr>filename = Some ''a.c'', functionname = Some ''other'', linenr = 42\<rparr>)"
    by (simp add: fnl_other_def)
  from function_name_guard [of ex_plain_built 0 "''main''" fnl_other "0x110" None True
      "\<lparr>filename = Some ''a.c'', functionname = Some ''other'', linenr = 42\<rparr>", OF n f, THEN conjunct1]
  have "\<exists>res. get_linenr fnl_other ex_plain_built 0 0x110 None = Inr res \<and> \<not> ret res"
    by simp
  with ex_other show ?thesis by blast
qed

theorem function_name_guard_counterexample:
  "sym_name (symbol (syms ex_plain_built ! 0)) = Some ''main'' \<and>
   get_linenr fnl_nofunc ex_plain_built 0 0x110 None =
     Inr \<lparr>ret = True,
          vars = \<lparr>filename = Some ''a.c'', functionname = None, linenr = 42\<rparr>,
          calls = [0x10]\<rparr>"
proof -
  have n: "sym_name (symbol (syms ex_plain_built ! 0)) = Some ''main''"
    unfolding ex_plain_built_def by code_simp
  with ex_nofunc show ?thesis by blast
qed

text \<open>
  Claim C7. The first lookup gives line 0, and the probe at the next address succeeds
  with line 7 and a null function name: the scan hands the null pointer to \<open>strcmp\<close>.
\<close>

theorem prologue_scan_null_function_name:
  "fnl_prologue ex_text 0x10 \<lparr>filename = None, functionname = None, linenr = 0\<rparr> =
     (True, \<lparr>filename = Some ''a.c'', functionname = Some ''main'', linenr = 0\<rparr>) \<and>
   fnl_prologue ex_text 0x11 \<lparr>filename = Some ''a.c'', functionname = Some ''main'', linenr = 0\<rparr> =
     (True, \<lparr>filename = Some ''a.c'', functionname = None, linenr = 7\<rparr>) \<and>
   get_pc ex_plain_built 0 0x110 = 0x10 \<and>
   get_linenr fnl_prologue ex_plain_built 0 0x110 None = Inl Null_dereference"
proof -
  have p: "get_pc ex_plain_built 0 0x110 = 0x10"
    unfolding ex_plain_built_def by code_simp
  have a: "fnl_prologue ex_text 0x10 \<lparr>filename = None, functionname = None, linenr = 0\<rparr> =
     (True, \<lparr>filename = Some ''a.c'', functionname = Some ''main'', linenr = 0\<rparr>)"
    "fnl_prologue ex_text 0x11 \<lparr>filename = Some ''a.c'', functionname = Some ''main'', linenr = 0\<rparr> =
     (True, \<lparr>filename = Some ''a.c'', functionname = None, linenr = 7\<rparr>)"
    by (simp_all add: fnl_prologue_def)
  from a p ex_prologue show ?thesis by blast
qed

section \<open>The addresses the forward scan probes\<close>

lemma probe_loop_calls:
  assumes "probe_loop fnl sect nm pc m i v cs = Inr w"
  shows "\<exists>xs. calls w = cs @ map (\<lambda>x. pc + x) xs \<and> length xs \<le> unat m - unat i \<and>
              (\<forall>x \<in> set xs. i \<le> x \<and> x < m)"
  using assms
proof (induction fnl sect nm pc m i v cs rule: probe_loop.induct)
  case (1 fnl sect nm pc m i v cs)
  show ?case
  proof (cases "i < m")
    case False
    with "1.prems" have "calls w = cs"
      by (auto simp: probe_loop.simps[of fnl sect nm pc m i v cs])
    then show ?thesis by (intro exI[of _ "[]"]) simp
  next
    case True
    then have u: "unat (i + 1) = unat i + 1" "unat i < unat m" "i \<le> i + 1"
      by unat_arith+
    obtain r v' where f: "fnl sect (pc + i) v = (r, v')" by (cases "fnl sect (pc + i) v")
    have "calls w = cs @ [pc + i] \<or>
          probe_loop fnl sect nm pc m (i + 1) v' (cs @ [pc + i]) = Inr w"
      using "1.prems" True f
      by (auto simp: probe_loop.simps[of fnl sect nm pc m i v cs] Let_def
          split: if_splits sum.splits)
    then show ?thesis
    proof
      assume "calls w = cs @ [pc + i]"
      with True u show ?thesis by (intro exI[of _ "[i]"]) simp
    next
      assume rec: "probe_loop fnl sect nm pc m (i + 1) v' (cs @ [pc + i]) = Inr w"
      have "\<exists>xs. calls w = (cs @ [pc + i]) @ map (\<lambda>x. pc + x) xs \<and>
                 length xs \<le> unat m - unat (i + 1) \<and> (\<forall>x \<in> set xs. i + 1 \<le> x \<and> x < m)"
      proof (cases "r \<and> linenr v' \<noteq> 0")
        case False
        from "1.IH"(2)[OF True refl refl _ ] False f rec show ?thesis by simp
      next
        case hit: True
        from rec "1.prems" True f hit
        obtain d where sd: "strcmp_differs (functionname (snd (fnl sect (pc + i) v))) nm = Inr d"
          by (auto simp: probe_loop.simps[of fnl sect nm pc m i v cs] Let_def split: sum.splits)
        show ?thesis
        proof (cases d)
          case True
          from "1.IH"(1)[OF \<open>i < m\<close> refl refl _ sd] hit f True rec show ?thesis by simp
        next
          case False
          with "1.prems" \<open>i < m\<close> f hit sd have "calls w = cs @ [pc + i]"
            by (auto simp: probe_loop.simps[of fnl sect nm pc m i v cs] Let_def)
          then show ?thesis by (intro exI[of _ "[]"]) simp
        qed
      qed
      then obtain xs where xs: "calls w = (cs @ [pc + i]) @ map (\<lambda>x. pc + x) xs"
        "length xs \<le> unat m - unat (i + 1)" "\<forall>x \<in> set xs. i + 1 \<le> x \<and> x < m"
        by blast
      show ?thesis
      proof (intro exI[of _ "i # xs"] conjI ballI)
        show "calls w = cs @ map (\<lambda>x. pc + x) (i # xs)" using xs(1) by simp
        show "length (i # xs) \<le> unat m - unat i" using xs(2) u by simp
        fix x assume "x \<in> set (i # xs)"
        then show "i \<le> x" using xs(3) u(3) by auto
        from \<open>x \<in> set (i # xs)\<close> show "x < m" using xs(3) True by auto
      qed
    qed
  qed
qed


lemma max_search_bound:
  fixes pc sz :: "64 word"
  assumes "pc < sz"
  shows "(if pc + 16 > sz then sz - pc else 16) \<le> 16"
  using assms by unat_arith

lemma probe_in_section:
  fixes pc sz x :: "64 word"
  assumes "pc < sz" and "x < (if pc + 16 > sz then sz - pc else 16)"
    and "unat sz + 16 \<le> 2 ^ 64"
  shows "pc + x < sz"
proof -
  from assms(1) have lt: "unat pc < unat sz" by (simp add: word_less_nat_alt)
  have b: "unat sz < 2 ^ 64" using unsigned_less[of sz] by simp
  have sum: "unat pc + unat x < unat sz"
  proof (cases "pc + 16 > sz")
    case True
    with assms(2) have "unat x < unat (sz - pc)" by (simp add: word_less_nat_alt)
    moreover have "unat (sz - pc) = unat sz - unat pc"
      using assms(1) by (simp add: unat_sub)
    ultimately show ?thesis using lt by simp
  next
    case False
    with assms(2) have x: "unat x < 16" by (simp add: word_less_nat_alt)
    from lt assms(3) have "unat pc + unat (16 :: 64 word) < 2 ^ LENGTH(64)" by simp
    then have "unat (pc + 16) = unat pc + unat (16 :: 64 word)"
      by (simp only: unat_add_lem)
    moreover from False have "unat (pc + 16) \<le> unat sz" by (simp add: word_le_nat_alt not_less)
    ultimately show ?thesis using x by simp
  qed
  with b have "unat pc + unat x < 2 ^ LENGTH(64)" by simp
  then have "unat (pc + x) = unat pc + unat x" by (simp only: unat_add_lem)
  with sum show ?thesis by (simp add: word_less_nat_alt)
qed

lemma get_linenr_calls:
  assumes "get_linenr fnl b i off fn0 = Inr res"
  shows "\<exists>xs. length xs \<le> 15 \<and>
           (\<forall>x \<in> set xs. 1 \<le> x \<and> x < 16 \<and>
              (unat (sec_size (sym_section (symbol (syms b ! i)))) + 16 \<le> 2 ^ 64 \<longrightarrow>
               get_pc b i off + x < sec_size (sym_section (symbol (syms b ! i))))) \<and>
           (calls res = [] \<or>
            calls res = get_pc b i off # map (\<lambda>x. get_pc b i off + x) xs \<or>
            calls res = get_pc b i off # map (\<lambda>x. get_pc b i off + x) xs @ [get_pc b i off])"
proof -
  let ?sect = "sym_section (symbol (syms b ! i))"
  let ?pc = "get_pc b i off"
  let ?m = "if ?pc + 16 > sec_size ?sect then sec_size ?sect - ?pc else 16"
  let ?nm = "sym_name (symbol (syms b ! i))"
  consider (none) "calls res = []" | (one) "calls res = [?pc]"
    | (scan) r1 :: "bool \<times> line_vars" and w where "?pc < sec_size ?sect"
        "probe_loop fnl ?sect ?nm ?pc ?m 1 (snd r1) [?pc] = Inr w"
        "calls res = calls w \<or> calls res = calls w @ [?pc]"
    using assms
    by (auto simp: get_linenr_def Let_def not_le split: if_splits sum.splits)
  then show ?thesis
  proof cases
    case none
    then show ?thesis by (intro exI[of _ "[]"]) simp
  next
    case one
    then show ?thesis by (intro exI[of _ "[]"]) simp
  next
    case scan
    from probe_loop_calls[OF scan(2)] obtain xs where
      xs: "calls w = [?pc] @ map (\<lambda>x. ?pc + x) xs" "length xs \<le> unat ?m - unat (1::64 word)"
        "\<forall>x \<in> set xs. 1 \<le> x \<and> x < ?m"
      by blast
    have m16: "?m \<le> 16" by (rule max_search_bound[OF scan(1)])
    then have "unat ?m \<le> 16" by (simp add: word_le_nat_alt)
    with xs(2) have len: "length xs \<le> 15" by simp
    have el: "1 \<le> x \<and> x < 16 \<and>
              (unat (sec_size ?sect) + 16 \<le> 2 ^ 64 \<longrightarrow> ?pc + x < sec_size ?sect)"
      if "x \<in> set xs" for x
    proof -
      from xs(3) that have x: "1 \<le> x" "x < ?m" by auto
      from x(2) m16 have "x < 16" by (rule less_le_trans)
      moreover have "?pc + x < sec_size ?sect" if "unat (sec_size ?sect) + 16 \<le> 2 ^ 64"
        by (rule probe_in_section[OF scan(1) x(2) that])
      ultimately show ?thesis using x(1) by blast
    qed
    from scan(3) xs(1) have "calls res = ?pc # map (\<lambda>x. ?pc + x) xs \<or>
            calls res = ?pc # map (\<lambda>x. ?pc + x) xs @ [?pc]" by auto
    with len el show ?thesis by blast
  qed
qed


end
